theory Spec2Isabelle
  imports Main "HOL-Library.Sublist"
begin

section \<open>Characters and character classes\<close>

text \<open>
  The dump buffer is a Python \<open>str\<close>.  It is modelled as a \<open>string\<close>; a \<open>char\<close>
  stands for a code point below 256, classified the way Python's \<open>str.isspace\<close> and the
  \<open>re\<close> module classify it.
\<close>

abbreviation dq :: char where "dq \<equiv> CHR 0x22"
abbreviation sq :: char where "sq \<equiv> CHR 0x27"
abbreviation bt :: char where "bt \<equiv> CHR 0x60"
abbreviation nl :: char where "nl \<equiv> CHR 0x0A"

definition is_space :: "char \<Rightarrow> bool" where
  "is_space c = (of_char c \<in> {9, 10, 11, 12, 13, 28, 29, 30, 31, 32, 133, 160 :: nat})"

definition is_digit :: "char \<Rightarrow> bool" where
  "is_digit c = (48 \<le> (of_char c :: nat) \<and> (of_char c :: nat) \<le> 57)"

definition is_word :: "char \<Rightarrow> bool" where
  "is_word c = (let n = (of_char c :: nat) in
     (48 \<le> n \<and> n \<le> 57) \<or> (65 \<le> n \<and> n \<le> 90) \<or> n = 95 \<or> (97 \<le> n \<and> n \<le> 122) \<or>
     n \<in> {170, 178, 179, 181, 185, 186, 188, 189, 190} \<or>
     (192 \<le> n \<and> n \<le> 214) \<or> (216 \<le> n \<and> n \<le> 246) \<or> 248 \<le> n)"

definition lower :: "char \<Rightarrow> char" where
  "lower c = (let n = (of_char c :: nat) in if 65 \<le> n \<and> n \<le> 90 then char_of (n + 32) else c)"

text \<open>The members of a bracketed class: a single character, a range, or \<open>\s\<close>.\<close>

datatype cset = One char | Range char char | WS

fun in_cset :: "cset \<Rightarrow> char \<Rightarrow> bool" where
  "in_cset (One a) c = (c = a)"
| "in_cset (Range a b) c = ((of_char a :: nat) \<le> of_char c \<and> (of_char c :: nat) \<le> of_char b)"
| "in_cset WS c = is_space c"

datatype cclass = Pos "cset list" | Neg "cset list"

fun in_class :: "cclass \<Rightarrow> char \<Rightarrow> bool" where
  "in_class (Pos cs) c = (\<exists>x \<in> set cs. in_cset x c)"
| "in_class (Neg cs) c = (\<not> (\<exists>x \<in> set cs. in_cset x c))"

section \<open>The regular expressions of the two scripts\<close>

text \<open>
  Every pattern of the two scripts is a sequence of literal characters (compared exactly,
  or without regard to case under \<open>re.IGNORECASE\<close>), greedy repetitions of one character
  class, the word boundary \<open>\b\<close> and group parentheses.  \<open>Mark\<close> stands for a
  parenthesis of a group: the matcher records the position where it meets one.
\<close>

datatype item =
    Chr char
  | ChrI char
  | Rep cclass nat "nat option"
  | WordB
  | Mark

type_synonym regex = "item list"

fun word_opt :: "char option \<Rightarrow> bool" where
  "word_opt None = False"
| "word_opt (Some c) = is_word c"

fun next_char :: "string \<Rightarrow> char option" where
  "next_char [] = None"
| "next_char (x # xs) = Some x"

fun has_more :: "nat option \<Rightarrow> bool" where
  "has_more None = True"
| "has_more (Some n) = (0 < n)"

fun dec :: "nat option \<Rightarrow> nat option" where
  "dec None = None"
| "dec (Some n) = Some (n - 1)"

text \<open>
  The backtracking matcher, anchored at the current position.  \<open>prev\<close> is the character
  before the position (for \<open>\b\<close>), \<open>adv\<close> is \<open>Some n\<close> when an empty match at the
  position with \<open>n\<close> characters left must be refused (the search that follows an empty
  match).  The result is the list of marked positions, each given as the text that was
  left there, the last character consumed and the rest of the text.  A repetition tries the
  longest run first and gives characters back one at a time.
\<close>

fun rmatch :: "regex \<Rightarrow> nat option \<Rightarrow> char option \<Rightarrow> string \<Rightarrow> (string list \<times> char option \<times> string) option" where
  "rmatch [] adv prev s = (if adv = Some (length s) then None else Some ([], prev, s))"
| "rmatch (Chr c # is) adv prev [] = None"
| "rmatch (Chr c # is) adv prev (x # xs) = (if x = c then rmatch is adv (Some x) xs else None)"
| "rmatch (ChrI c # is) adv prev [] = None"
| "rmatch (ChrI c # is) adv prev (x # xs) =
     (if lower x = lower c then rmatch is adv (Some x) xs else None)"
| "rmatch (WordB # is) adv prev s =
     (if word_opt prev \<noteq> word_opt (next_char s) then rmatch is adv prev s else None)"
| "rmatch (Mark # is) adv prev s =
     (case rmatch is adv prev s of None \<Rightarrow> None | Some (ms, p, r) \<Rightarrow> Some (s # ms, p, r))"
| "rmatch (Rep cl lo hi # is) adv prev [] = (if lo = 0 then rmatch is adv prev [] else None)"
| "rmatch (Rep cl lo hi # is) adv prev (x # xs) =
     (if in_class cl x \<and> has_more hi then
        (case rmatch (Rep cl (lo - 1) (dec hi) # is) adv (Some x) xs of
           Some m \<Rightarrow> Some m
         | None \<Rightarrow> if lo = 0 then rmatch is adv prev (x # xs) else None)
      else if lo = 0 then rmatch is adv prev (x # xs) else None)"

text \<open>The text of group \<open>k\<close> (counted from 1) lies between marks \<open>2k - 2\<close> and \<open>2k - 1\<close>.\<close>

fun between :: "string \<Rightarrow> string \<Rightarrow> string" where
  "between a b = take (length a - length b) a"

fun groups :: "string list \<Rightarrow> string list" where
  "groups (a # b # ms) = between a b # groups ms"
| "groups ms = []"


section \<open>Substitution\<close>

text \<open>
  \<open>re.sub\<close> scans the text from left to right.  Where the pattern matches, the groups of
  the match are handed to the replacement and the scan goes on behind the match; elsewhere
  the character is copied.  After an empty match the same position is searched once more,
  now refusing the empty match (CPython's \<open>must_advance\<close>).  A match never ends before
  its start, so the last branch is never taken.
\<close>

function re_scan :: "regex \<Rightarrow> nat option \<Rightarrow> char option \<Rightarrow> string \<Rightarrow> (char + string list) list" where
  "re_scan p adv prev s =
     (case rmatch p adv prev s of
        Some (ms, q, r) \<Rightarrow>
          if length r < length s then Inr (groups ms) # re_scan p None q r
          else if adv = None then Inr (groups ms) # re_scan p (Some (length s)) prev s
          else []
      | None \<Rightarrow> (case s of [] \<Rightarrow> [] | x # xs \<Rightarrow> Inl x # re_scan p None (Some x) xs))"
  by pat_completeness auto
termination
  by (relation "measure (\<lambda>(p, adv, prev, s). 2 * length s + (if adv = None then 1 else 0))") auto

declare re_scan.simps [simp del]

text \<open>A replacement template: literal text and group references \<open>\k\<close>.\<close>

datatype tpart = TLit string | TGrp nat

fun group :: "string list \<Rightarrow> nat \<Rightarrow> string" where
  "group gs k = (if 0 < k \<and> k \<le> length gs then gs ! (k - 1) else [])"

fun expand :: "tpart list \<Rightarrow> string list \<Rightarrow> string" where
  "expand [] gs = []"
| "expand (TLit t # ts) gs = t @ expand ts gs"
| "expand (TGrp k # ts) gs = group gs k @ expand ts gs"

fun piece :: "tpart list \<Rightarrow> char + string list \<Rightarrow> string" where
  "piece tpl (Inl c) = [c]"
| "piece tpl (Inr gs) = expand tpl gs"

definition re_sub :: "regex \<Rightarrow> tpart list \<Rightarrow> string \<Rightarrow> string" where
  "re_sub p tpl s = concat (map (piece tpl) (re_scan p None None s))"

text \<open>
  \<open>re.sub\<close> with a function as replacement: the function is called on each match in
  turn, and an exception it raises ends the substitution.
\<close>

datatype pyexn = ValueError | OSError | OverflowError

fun subst_all :: "(string list \<Rightarrow> pyexn + string) \<Rightarrow> (char + string list) list \<Rightarrow> pyexn + string" where
  "subst_all f [] = Inr []"
| "subst_all f (Inl c # ps) =
     (case subst_all f ps of Inl e \<Rightarrow> Inl e | Inr u \<Rightarrow> Inr (c # u))"
| "subst_all f (Inr gs # ps) =
     (case f gs of
        Inl e \<Rightarrow> Inl e
      | Inr t \<Rightarrow> (case subst_all f ps of Inl e \<Rightarrow> Inl e | Inr u \<Rightarrow> Inr (t @ u)))"

definition re_sub_call :: "regex \<Rightarrow> (string list \<Rightarrow> pyexn + string) \<Rightarrow> string \<Rightarrow> pyexn + string" where
  "re_sub_call p f s = subst_all f (re_scan p None None s)"

definition lit :: "string \<Rightarrow> regex" where
  "lit s = map Chr s"

definition liti :: "string \<Rightarrow> regex" where
  "liti s = map ChrI s"

section \<open>Strings, integers and dates of the Python library\<close>

fun split_on :: "char \<Rightarrow> string \<Rightarrow> string list" where
  "split_on c [] = [[]]"
| "split_on c (x # xs) =
     (if x = c then [] # split_on c xs
      else (case split_on c xs of l # ls \<Rightarrow> (x # l) # ls | [] \<Rightarrow> [[x]]))"

fun join :: "string \<Rightarrow> string list \<Rightarrow> string" where
  "join sep [] = []"
| "join sep [l] = l"
| "join sep (l # ls) = l @ sep @ join sep ls"

definition strip :: "string \<Rightarrow> string" where
  "strip s = rev (dropWhile is_space (rev (dropWhile is_space s)))"

definition startswith :: "string \<Rightarrow> string \<Rightarrow> bool" where
  "startswith s p = (take (length p) s = p)"

fun digit_val :: "char \<Rightarrow> int" where
  "digit_val c = int (of_char c) - 48"

fun digits_val :: "int \<Rightarrow> string \<Rightarrow> int" where
  "digits_val acc [] = acc"
| "digits_val acc (c # cs) = digits_val (if c = CHR ''_'' then acc else 10 * acc + digit_val c) cs"

fun digits_ok :: "bool \<Rightarrow> string \<Rightarrow> bool" where
  "digits_ok after_digit [] = after_digit"
| "digits_ok after_digit (c # cs) =
     (if is_digit c then digits_ok True cs
      else if c = CHR ''_'' \<and> after_digit then digits_ok False cs
      else False)"

text \<open>
  \<open>int(text)\<close>: blanks around the number are dropped, a sign may lead, single underscores
  may stand between digits; anything else raises \<open>ValueError\<close>.  The blanks of \<open>int\<close>
  are those of C (tab to carriage return, space) and the blanks beyond ASCII (U+0085,
  U+00A0); the separators U+001C..U+001F, which \<open>str.strip\<close> removes, are not among them.
\<close>

definition is_int_space :: "char \<Rightarrow> bool" where
  "is_int_space c = (of_char c \<in> {9, 10, 11, 12, 13, 32, 133, 160 :: nat})"

definition int_strip :: "string \<Rightarrow> string" where
  "int_strip s = rev (dropWhile is_int_space (rev (dropWhile is_int_space s)))"

definition py_int :: "string \<Rightarrow> pyexn + int" where
  "py_int s =
     (let t = int_strip s;
          (neg, u) = (case t of
                        c # r \<Rightarrow> if c = CHR ''-'' then (True, r)
                                 else if c = CHR ''+'' then (False, r) else (False, t)
                      | [] \<Rightarrow> (False, t))
      in if digits_ok False u then Inr (if neg then - digits_val 0 u else digits_val 0 u)
         else Inl ValueError)"

function dec_str :: "nat \<Rightarrow> string" where
  "dec_str n = (if n < 10 then [char_of (48 + n)] else dec_str (n div 10) @ [char_of (48 + n mod 10)])"
  by pat_completeness auto
termination
  by (relation "measure id") auto

declare dec_str.simps [simp del]

definition pad :: "nat \<Rightarrow> int \<Rightarrow> string" where
  "pad w n = (let d = dec_str (nat n) in replicate (w - length d) CHR ''0'' @ d)"

record datetime =
  year :: int
  month :: int
  day :: int
  hour :: int
  minute :: int
  second :: int

text \<open>
  The calendar date of a count of seconds of local time since 1970-01-01 00:00:00
  (proleptic Gregorian calendar).  Days are counted from 1 March of year 0 in eras of 400
  years, centuries, 4-year cycles and years, so that a leap day is the last day of its
  cycle; month and day follow from the day of the year that starts in March.
\<close>

definition civil :: "int \<Rightarrow> datetime" where
  "civil t =
     (let days = t div 86400; secs = t mod 86400;
          z = days + 719468;
          era = z div 146097;
          doe = z mod 146097;
          c = min 3 (doe div 36524);
          r1 = doe - 36524 * c;
          q = r1 div 1461;
          r2 = r1 mod 1461;
          n1 = min 3 (r2 div 365);
          doy = r2 - 365 * n1;
          yoe = 100 * c + 4 * q + n1;
          mp = (5 * doy + 2) div 153;
          d = doy - (153 * mp + 2) div 5 + 1;
          m = (if mp < 10 then mp + 3 else mp - 9);
          y = yoe + era * 400 + (if m \<le> 2 then 1 else 0)
      in \<lparr> year = y, month = m, day = d,
           hour = secs div 3600, minute = (secs mod 3600) div 60, second = secs mod 60 \<rparr>)"

text \<open>
  \<open>datetime.fromtimestamp(n)\<close> asks the platform for the local time of the instant
  \<open>n\<close>.  The platform (the C library and its time zone data) is a parameter: it answers
  with the local wall-clock time as a count of seconds, or fails with \<open>OverflowError\<close>
  (the value does not fit its \<open>time_t\<close>) or \<open>OSError\<close> (\<open>localtime\<close> failed).
  A year outside 1..9999 raises \<open>ValueError\<close>.  (CPython also asks for the local time a
  day earlier, to find a repeated hour, and so refuses the first day of the year 1 as well;
  the literals of the timestamp rule and the clock of a run lie in the years 1970 to 2286.)
\<close>

definition fromtimestamp :: "(int \<Rightarrow> pyexn + int) \<Rightarrow> int \<Rightarrow> pyexn + datetime" where
  "fromtimestamp localtime n =
     (case localtime n of
        Inl e \<Rightarrow> Inl e
      | Inr t \<Rightarrow> (let dt = civil t in
                  if year dt < 1 \<or> 9999 < year dt then Inl ValueError else Inr dt))"

text \<open>
  \<open>dt.strftime('%Y-%m-%d %H:%M:%S')\<close>.  The year is written with four digits; below the
  year 1000 the C libraries differ in the padding, and no date of a run lies there.
\<close>

definition strftime :: "datetime \<Rightarrow> string" where
  "strftime dt = pad 4 (year dt) @ ''-'' @ pad 2 (month dt) @ ''-'' @ pad 2 (day dt) @ '' '' @
                 pad 2 (hour dt) @ '':'' @ pad 2 (minute dt) @ '':'' @ pad 2 (second dt)"


section \<open>convert-data-only.py\<close>

text \<open>
  \<open>unix_timestamp_to_postgres(match)\<close>: the callback of the timestamp rule.  Only
  \<open>ValueError\<close> and \<open>OSError\<close> are caught.
\<close>

definition quoted :: "string \<Rightarrow> string" where
  "quoted t = [sq] @ t @ [sq]"

definition unix_timestamp_to_postgres :: "(int \<Rightarrow> pyexn + int) \<Rightarrow> string list \<Rightarrow> pyexn + string" where
  "unix_timestamp_to_postgres localtime gs =
     (let timestamp = group gs 1 in
      case (case py_int timestamp of
              Inl e \<Rightarrow> Inl e
            | Inr timestamp_int \<Rightarrow>
                (let timestamp_int = (if timestamp_int > 10000000000 then timestamp_int div 1000
                                      else timestamp_int)
                 in case fromtimestamp localtime timestamp_int of
                      Inl e \<Rightarrow> Inl e
                    | Inr dt \<Rightarrow> Inr (quoted (strftime dt)))) of
        Inr t \<Rightarrow> Inr t
      | Inl ValueError \<Rightarrow> Inr (quoted timestamp)
      | Inl OSError \<Rightarrow> Inr (quoted timestamp)
      | Inl e \<Rightarrow> Inl e)"

definition table_name_class :: cclass where
  "table_name_class = Neg [One dq, WS, One CHR ''('']"

definition insert_into_re :: regex where
  "insert_into_re = lit ''INSERT INTO '' @ [Mark, Rep table_name_class 1 None, Mark]"

definition insert_into_tpl :: "tpart list" where
  "insert_into_tpl = [TLit (''INSERT INTO '' @ [dq]), TGrp 1, TLit [dq]]"

definition quote_table_names :: "string \<Rightarrow> string" where
  "quote_table_names = re_sub insert_into_re insert_into_tpl"

definition timestamp_re :: regex where
  "timestamp_re = [WordB, Mark, Chr CHR ''1'', Rep (Pos [Range CHR ''0'' CHR ''9'']) 9 (Some 12), Mark, WordB]"

definition values_null_re :: regex where
  "values_null_re = lit ''VALUES(NULL,''"

definition values_null_tpl :: "tpart list" where
  "values_null_tpl = [TLit ''VALUES(DEFAULT,'']"

definition doubled_quotes_re :: regex where
  "doubled_quotes_re = [Chr dq, Chr dq, Mark, Rep (Neg [One dq]) 1 None, Mark, Chr dq, Chr dq]"

definition doubled_quotes_tpl :: "tpart list" where
  "doubled_quotes_tpl = [TLit [dq], TGrp 1, TLit [dq]]"

text \<open>The six boolean rules, in the order of the script.\<close>

definition convert_booleans :: "string \<Rightarrow> string" where
  "convert_booleans content =
     (let content = re_sub (lit '',0,'') [TLit '',FALSE,''] content;
          content = re_sub (lit '',1,'') [TLit '',TRUE,''] content;
          content = re_sub (lit ''(0,'') [TLit ''(FALSE,''] content;
          content = re_sub (lit ''(1,'') [TLit ''(TRUE,''] content;
          content = re_sub (lit '',0)'') [TLit '',FALSE)''] content;
          content = re_sub (lit '',1)'') [TLit '',TRUE)''] content
      in content)"

definition is_insert_line :: "string \<Rightarrow> bool" where
  "is_insert_line line = startswith (strip line) ''INSERT INTO''"

definition insert_lines_of :: "string \<Rightarrow> string list" where
  "insert_lines_of content = filter is_insert_line (split_on nl content)"

text \<open>The rewriting of the joined insertion lines, up to the wrapping.\<close>

definition rewrite_inserts :: "(int \<Rightarrow> pyexn + int) \<Rightarrow> string list \<Rightarrow> pyexn + string" where
  "rewrite_inserts localtime insert_lines =
     (let content = join [nl] insert_lines;
          content = quote_table_names content
      in case re_sub_call timestamp_re (unix_timestamp_to_postgres localtime) content of
           Inl e \<Rightarrow> Inl e
         | Inr content \<Rightarrow>
             (let content = convert_booleans content;
                  content = re_sub values_null_re values_null_tpl content;
                  content = re_sub doubled_quotes_re doubled_quotes_tpl content
              in Inr content))"

text \<open>
  The environment of a run: the platform's local time, the reading of the clock
  (\<open>datetime.now()\<close> is the local time of that instant), the files, the paths that cannot
  be opened for writing, and what has been printed.
\<close>

record world =
  files :: "string \<Rightarrow> string option"
  unwritable :: "string \<Rightarrow> bool"
  stdout :: "string list"
  stderr :: "pyexn list"

record env =
  platform_localtime :: "int \<Rightarrow> pyexn + int"
  clock :: int

definition read_file :: "world \<Rightarrow> string \<Rightarrow> pyexn + string" where
  "read_file w path = (case files w path of None \<Rightarrow> Inl OSError | Some c \<Rightarrow> Inr c)"

definition write_file :: "world \<Rightarrow> string \<Rightarrow> string \<Rightarrow> pyexn + world" where
  "write_file w path c =
     (if unwritable w path then Inl OSError else Inr (w\<lparr>files := (files w)(path \<mapsto> c)\<rparr>))"

definition print :: "string \<Rightarrow> world \<Rightarrow> world" where
  "print line w = w\<lparr>stdout := stdout w @ [line]\<rparr>"

definition data_preamble :: "string \<Rightarrow> string" where
  "data_preamble generated =
     ''-- Data import for PostgreSQL (converted from SQLite)'' @ [nl] @
     ''-- Generated on '' @ generated @ [nl] @
     ''SET client_encoding = '' @ quoted ''UTF8'' @ '';'' @ [nl] @
     ''SET standard_conforming_strings = on;'' @ [nl] @
     [nl] @
     ''-- Temporarily disable foreign key checks for data import'' @ [nl] @
     ''SET session_replication_role = replica;'' @ [nl] @
     [nl]"

definition data_postamble :: string where
  "data_postamble =
     [nl, nl] @ ''-- Re-enable foreign key checks'' @ [nl] @
     ''SET session_replication_role = DEFAULT;'' @ [nl]"

definition convert_sqlite_data_to_postgres :: "env \<Rightarrow> world \<Rightarrow> string \<Rightarrow> string \<Rightarrow> pyexn + world" where
  "convert_sqlite_data_to_postgres e w input_file output_file =
     (case read_file w input_file of
        Inl x \<Rightarrow> Inl x
      | Inr content \<Rightarrow>
          (let insert_lines = insert_lines_of content in
           if insert_lines = [] then Inr (print ''No INSERT statements found in input file'' w)
           else
             (case rewrite_inserts (platform_localtime e) insert_lines of
                Inl x \<Rightarrow> Inl x
              | Inr content \<Rightarrow>
                  (case fromtimestamp (platform_localtime e) (clock e) of
                     Inl x \<Rightarrow> Inl x
                   | Inr now \<Rightarrow>
                       (let postgres_content = data_preamble (strftime now) @ content @ data_postamble
                        in case write_file w output_file postgres_content of
                             Inl x \<Rightarrow> Inl x
                           | Inr w' \<Rightarrow>
                               Inr (print (''Converted '' @ dec_str (length insert_lines) @
                                           '' INSERT statements from '' @ input_file @
                                           '' to '' @ output_file) w'))))))"

text \<open>\<open>main()\<close> with the two parsed arguments: the world afterwards and the exit code.\<close>

definition data_main :: "env \<Rightarrow> world \<Rightarrow> string \<Rightarrow> string \<Rightarrow> world \<times> nat" where
  "data_main e w input_file output_file =
     (case convert_sqlite_data_to_postgres e w input_file output_file of
        Inr w' \<Rightarrow> (print ''Data conversion completed successfully!'' w', 0)
      | Inl x \<Rightarrow> (w\<lparr>stderr := stderr w @ [x]\<rparr>, 1))"

section \<open>convert-to-postgres.py\<close>

definition word_re :: "string \<Rightarrow> regex" where
  "word_re s = [WordB] @ lit s @ [WordB]"

definition wordi_re :: "string \<Rightarrow> regex" where
  "wordi_re s = [WordB] @ liti s @ [WordB]"

definition pragma_re :: regex where
  "pragma_re = lit ''PRAGMA'' @ [Rep (Neg [One CHR '';'']) 1 None, Chr CHR '';'']"

definition backtick_re :: regex where
  "backtick_re = [Chr bt, Mark, Rep (Neg [One bt]) 1 None, Mark, Chr bt]"

definition backtick_tpl :: "tpart list" where
  "backtick_tpl = [TLit [dq], TGrp 1, TLit [dq]]"

definition autoincrement_re :: regex where
  "autoincrement_re = wordi_re ''INTEGER PRIMARY KEY AUTOINCREMENT''"

definition insert_null_re :: regex where
  "insert_null_re = lit (''INSERT INTO '' @ [dq]) @ [Mark, Rep (Neg [One dq]) 1 None, Mark] @
                    lit ([dq] @ '' VALUES(NULL,'')"

definition insert_null_tpl :: "tpart list" where
  "insert_null_tpl = [TLit (''INSERT INTO '' @ [dq]), TGrp 1, TLit ([dq] @ '' VALUES(DEFAULT,'')]"

definition references_re :: regex where
  "references_re = lit ''REFERENCES '' @ [Mark, Rep (Neg [One CHR ''('']) 1 None, Mark, Chr CHR ''('',
                     Mark, Rep (Neg [One CHR '')'']) 1 None, Mark, Chr CHR '')'']"

definition references_tpl :: "tpart list" where
  "references_tpl = [TLit (''REFERENCES '' @ [dq]), TGrp 1, TLit ([dq] @ ''('' @ [dq]), TGrp 2,
                     TLit ([dq] @ '')'')]"

definition blank_lines_re :: regex where
  "blank_lines_re = [Chr nl, Rep (Pos [WS]) 0 None, Chr nl]"

definition schema_preamble :: string where
  "schema_preamble =
     ''-- Converted from SQLite to PostgreSQL'' @ [nl] @
     ''SET client_encoding = '' @ quoted ''UTF8'' @ '';'' @ [nl] @
     ''SET standard_conforming_strings = on;'' @ [nl] @
     [nl]"

text \<open>The rules of \<open>convert_sqlite_to_postgres\<close> on the buffer, in the order of the script.\<close>

definition serial_id_re :: regex where
  "serial_id_re = word_re ''id SERIAL PRIMARY KEY''"

definition default_timestamp_re :: regex where
  "default_timestamp_re = lit ''DEFAULT CURRENT_TIMESTAMP''"

definition schema_rewrite :: "string \<Rightarrow> string" where
  "schema_rewrite content =
     (let content = re_sub pragma_re [] content;
          content = re_sub backtick_re backtick_tpl content;
          content = re_sub (wordi_re ''integer'') [TLit ''INTEGER''] content;
          content = re_sub (wordi_re ''text'') [TLit ''TEXT''] content;
          content = re_sub (wordi_re ''real'') [TLit ''REAL''] content;
          content = re_sub (wordi_re ''numeric'') [TLit ''NUMERIC''] content;
          content = re_sub autoincrement_re [TLit ''SERIAL PRIMARY KEY''] content;
          content = re_sub serial_id_re [TLit ''id SERIAL PRIMARY KEY''] content;
          content = re_sub (lit ''DEFAULT (CURRENT_TIMESTAMP)'') [TLit ''DEFAULT CURRENT_TIMESTAMP''] content;
          content = re_sub default_timestamp_re [TLit ''DEFAULT CURRENT_TIMESTAMP''] content;
          content = re_sub (word_re ''false'') [TLit ''FALSE''] content;
          content = re_sub (word_re ''true'') [TLit ''TRUE''] content;
          content = re_sub insert_into_re insert_into_tpl content;
          content = re_sub insert_null_re insert_null_tpl content;
          content = re_sub values_null_re values_null_tpl content;
          content = re_sub references_re references_tpl content;
          content = re_sub blank_lines_re [TLit [nl, nl]] content
      in content)"

definition convert_sqlite_to_postgres :: "world \<Rightarrow> string \<Rightarrow> string \<Rightarrow> pyexn + world" where
  "convert_sqlite_to_postgres w input_file output_file =
     (case read_file w input_file of
        Inl x \<Rightarrow> Inl x
      | Inr content \<Rightarrow>
          (case write_file w output_file (schema_preamble @ schema_rewrite content) of
             Inl x \<Rightarrow> Inl x
           | Inr w' \<Rightarrow> Inr (print (''Converted '' @ input_file @ '' to '' @ output_file) w')))"

definition schema_main :: "world \<Rightarrow> string \<Rightarrow> string \<Rightarrow> world \<times> nat" where
  "schema_main w input_file output_file =
     (case convert_sqlite_to_postgres w input_file output_file of
        Inr w' \<Rightarrow> (print ''Conversion completed successfully!'' w', 0)
      | Inl x \<Rightarrow> (w\<lparr>stderr := stderr w @ [x]\<rparr>, 1))"

text \<open>The same rules without the two that replace a text by itself.\<close>

definition schema_rewrite_short :: "string \<Rightarrow> string" where
  "schema_rewrite_short content =
     (let content = re_sub pragma_re [] content;
          content = re_sub backtick_re backtick_tpl content;
          content = re_sub (wordi_re ''integer'') [TLit ''INTEGER''] content;
          content = re_sub (wordi_re ''text'') [TLit ''TEXT''] content;
          content = re_sub (wordi_re ''real'') [TLit ''REAL''] content;
          content = re_sub (wordi_re ''numeric'') [TLit ''NUMERIC''] content;
          content = re_sub autoincrement_re [TLit ''SERIAL PRIMARY KEY''] content;
          content = re_sub (lit ''DEFAULT (CURRENT_TIMESTAMP)'') [TLit ''DEFAULT CURRENT_TIMESTAMP''] content;
          content = re_sub (word_re ''false'') [TLit ''FALSE''] content;
          content = re_sub (word_re ''true'') [TLit ''TRUE''] content;
          content = re_sub insert_into_re insert_into_tpl content;
          content = re_sub insert_null_re insert_null_tpl content;
          content = re_sub values_null_re values_null_tpl content;
          content = re_sub references_re references_tpl content;
          content = re_sub blank_lines_re [TLit [nl, nl]] content
      in content)"

section \<open>Notions of the statements\<close>

text \<open>A pattern that cannot match the empty text: it holds a character or a class that must occur.\<close>

fun consuming :: "regex \<Rightarrow> bool" where
  "consuming [] = False"
| "consuming (Chr c # is) = True"
| "consuming (ChrI c # is) = True"
| "consuming (Rep cl lo hi # is) = (0 < lo \<or> consuming is)"
| "consuming (WordB # is) = consuming is"
| "consuming (Mark # is) = consuming is"

text \<open>The longest run of characters of a class at the head of a text, and what follows it.\<close>

definition run :: "cclass \<Rightarrow> string \<Rightarrow> string" where
  "run cl s = takeWhile (in_class cl) s"

definition after_run :: "cclass \<Rightarrow> string \<Rightarrow> string" where
  "after_run cl s = dropWhile (in_class cl) s"

definition prev_after :: "char option \<Rightarrow> string \<Rightarrow> char option" where
  "prev_after prev g = (if g = [] then prev else Some (last g))"

text \<open>Substitution that starts behind a given character.\<close>

definition re_sub_from :: "regex \<Rightarrow> tpart list \<Rightarrow> char option \<Rightarrow> string \<Rightarrow> string" where
  "re_sub_from p tpl prev s = concat (map (piece tpl) (re_scan p None prev s))"

text \<open>Trimming of leading whitespace, and the number of line breaks of a text.\<close>

definition lstrip :: "string \<Rightarrow> string" where
  "lstrip s = dropWhile is_space s"

definition breaks :: "string \<Rightarrow> nat" where
  "breaks s = length (filter (\<lambda>c. c = nl) s)"

text \<open>Upper and lower case compare equal.\<close>

definition same_nocase :: "string \<Rightarrow> string \<Rightarrow> bool" where
  "same_nocase a b = (map lower a = map lower b)"


text \<open>A literal of 10 to 13 digits that starts with 1.\<close>

definition epoch_literal :: "string \<Rightarrow> bool" where
  "epoch_literal w = (10 \<le> length w \<and> length w \<le> 13 \<and> take 1 w = ''1'' \<and> list_all is_digit w)"

text \<open>Worlds and platforms of the examples.\<close>

definition world_with :: "string \<Rightarrow> string \<Rightarrow> world" where
  "world_with path content =
     \<lparr> files = [path \<mapsto> content], unwritable = (\<lambda>p. False), stdout = [], stderr = [] \<rparr>"

definition localtime32 :: "int \<Rightarrow> pyexn + int" where
  "localtime32 n = (if - 2147483648 \<le> n \<and> n \<le> 2147483647 then Inr n else Inl OverflowError)"

text \<open>A text that starts with \<open>INSERT INTO\<close>, a blank and a character of a bare table name.\<close>

definition insert_hit :: "string \<Rightarrow> bool" where
  "insert_hit s = (prefix ''INSERT INTO '' s \<and> run table_name_class (drop 12 s) \<noteq> [])"

text \<open>A position where the timestamp pattern matches: behind a character that is no word character, a literal that no word character follows.\<close>

definition epoch_hit :: "char option \<Rightarrow> string \<Rightarrow> bool" where
  "epoch_hit prev s = (\<not> word_opt prev \<and> epoch_literal (takeWhile is_digit s) \<and>
                       \<not> word_opt (next_char (dropWhile is_digit s)))"

text \<open>Two results of the matcher that differ at most in the last character consumed.\<close>

definition agree :: "(string list \<times> char option \<times> string) option \<Rightarrow>
    (string list \<times> char option \<times> string) option \<Rightarrow> bool" where
  "agree a b = (case a of None \<Rightarrow> b = None | Some (ms, q, r) \<Rightarrow> (\<exists>q'. b = Some (ms, q', r)))"

text \<open>
  A position where a phrase matches without regard to case between word boundaries, and a
  phrase that cannot begin anew behind one of its own characters that is no word character.
\<close>

definition wordi_hit :: "string \<Rightarrow> char option \<Rightarrow> string \<Rightarrow> bool" where
  "wordi_hit W prev s =
     (\<not> word_opt prev \<and> length W \<le> length s \<and> same_nocase (take (length W) s) W \<and>
      \<not> word_opt (next_char (drop (length W) s)))"

definition no_straddle :: "string \<Rightarrow> bool" where
  "no_straddle W =
     list_all (\<lambda>k. is_word (W ! (k - 1)) \<or> lower (W ! k) \<noteq> lower (W ! 0)) [1..<length W]"

text \<open>
  The pipeline of \<open>convert-to-postgres.py\<close> in three parts: the four rules for type names
  (lines 24 to 27), the rules behind the backtick rule (from line 24 on) and the rules behind
  the autoincrement rule (from line 31 on).
\<close>

definition schema_type_rules :: "string \<Rightarrow> string" where
  "schema_type_rules content =
     (let content = re_sub (wordi_re ''integer'') [TLit ''INTEGER''] content;
          content = re_sub (wordi_re ''text'') [TLit ''TEXT''] content;
          content = re_sub (wordi_re ''real'') [TLit ''REAL''] content;
          content = re_sub (wordi_re ''numeric'') [TLit ''NUMERIC''] content
      in content)"

definition schema_after_autoincrement :: "string \<Rightarrow> string" where
  "schema_after_autoincrement content =
     (let content = re_sub serial_id_re [TLit ''id SERIAL PRIMARY KEY''] content;
          content = re_sub (lit ''DEFAULT (CURRENT_TIMESTAMP)'') [TLit ''DEFAULT CURRENT_TIMESTAMP''] content;
          content = re_sub default_timestamp_re [TLit ''DEFAULT CURRENT_TIMESTAMP''] content;
          content = re_sub (word_re ''false'') [TLit ''FALSE''] content;
          content = re_sub (word_re ''true'') [TLit ''TRUE''] content;
          content = re_sub insert_into_re insert_into_tpl content;
          content = re_sub insert_null_re insert_null_tpl content;
          content = re_sub values_null_re values_null_tpl content;
          content = re_sub references_re references_tpl content;
          content = re_sub blank_lines_re [TLit [nl, nl]] content
      in content)"

definition schema_after_backticks :: "string \<Rightarrow> string" where
  "schema_after_backticks content =
     schema_after_autoincrement
       (re_sub autoincrement_re [TLit ''SERIAL PRIMARY KEY''] (schema_type_rules content))"

text \<open>A text that arises from another by taking out some of its double quotes.\<close>

fun dq_dropped :: "string \<Rightarrow> string \<Rightarrow> bool" where
  "dq_dropped [] [] = True"
| "dq_dropped (x # xs) [] = False"
| "dq_dropped [] (y # ys) = (y = dq \<and> dq_dropped [] ys)"
| "dq_dropped (x # xs) (y # ys) = ((x = y \<and> dq_dropped xs ys) \<or> (y = dq \<and> dq_dropped (x # xs) ys))"

text \<open>The rules of the data-only script up to the last one, on a single line.\<close>

definition rewrite_line :: "(int \<Rightarrow> pyexn + int) \<Rightarrow> string \<Rightarrow> pyexn + string" where
  "rewrite_line localtime line =
     (case re_sub_call timestamp_re (unix_timestamp_to_postgres localtime) (quote_table_names line) of
        Inl e \<Rightarrow> Inl e
      | Inr content \<Rightarrow> Inr (re_sub values_null_re values_null_tpl (convert_booleans content)))"

section \<open>The matcher\<close>

lemma rmatch_length_aux:
  "rmatch p adv prev s = Some (ms, q, r) \<Longrightarrow>
     (\<exists>u. s = u @ r) \<and> (consuming p \<longrightarrow> length r < length s)"
proof (induction p adv prev s arbitrary: ms q r rule: rmatch.induct)
  case (1 adv prev s)
  then show ?case by (simp split: if_splits)
next
  case (3 c "is" adv prev x xs)
  then have "x = c" and m: "rmatch is adv (Some x) xs = Some (ms, q, r)"
    by (auto split: if_splits)
  from 3(1)[OF \<open>x = c\<close> m] obtain u where "xs = u @ r" by blast
  then have "x # xs = (x # u) @ r" by simp
  then show ?case by (metis length_append length_Cons less_add_Suc2 append_Cons list.size(4) trans_less_add2 less_Suc_eq add_Suc_right)
next
  case (5 c "is" adv prev x xs)
  then have e: "lower x = lower c" and m: "rmatch is adv (Some x) xs = Some (ms, q, r)"
    by (auto split: if_splits)
  from 5(1)[OF e m] obtain u where "xs = u @ r" by blast
  then have "x # xs = (x # u) @ r" by simp
  then show ?case by (metis length_append length_Cons less_add_Suc2 append_Cons list.size(4) trans_less_add2 less_Suc_eq add_Suc_right)
next
  case (9 cl lo hi "is" adv prev x xs)
  show ?case
  proof (cases "in_class cl x \<and> has_more hi")
    case True
    show ?thesis
    proof (cases "rmatch (Rep cl (lo - 1) (dec hi) # is) adv (Some x) xs")
      case None
      with True 9 show ?thesis by (auto split: if_splits)
    next
      case (Some m)
      with True 9(4) have m: "rmatch (Rep cl (lo - 1) (dec hi) # is) adv (Some x) xs = Some (ms, q, r)"
        by simp
      from 9(1)[OF True m] obtain u where "xs = u @ r" by blast
      then have "x # xs = (x # u) @ r" by simp
      then have "(\<exists>u. x # xs = u @ r)" by blast
      moreover from \<open>xs = u @ r\<close> have "length r < length (x # xs)" by simp
      ultimately show ?thesis by blast
    qed
  next
    case False
    with 9 show ?thesis by (auto split: if_splits)
  qed
qed (auto split: if_splits option.splits)

lemma rmatch_suffix: "rmatch p adv prev s = Some (ms, q, r) \<Longrightarrow> s = between s r @ r"
  using rmatch_length_aux[of p adv prev s ms q r] by auto

lemma rmatch_consuming: "consuming p \<Longrightarrow> rmatch p adv prev s = Some (ms, q, r) \<Longrightarrow> length r < length s"
  using rmatch_length_aux by blast

lemma re_scan_consuming:
  assumes "consuming p"
  shows "re_scan p None prev s =
     (case rmatch p None prev s of
        Some (ms, q, r) \<Rightarrow> Inr (groups ms) # re_scan p None q r
      | None \<Rightarrow> (case s of [] \<Rightarrow> [] | x # xs \<Rightarrow> Inl x # re_scan p None (Some x) xs))"
  using rmatch_consuming[OF assms]
  by (subst re_scan.simps) (auto split: option.splits)

lemma re_sub_from_unfold:
  assumes "consuming p"
  shows "re_sub_from p tpl prev s =
     (case rmatch p None prev s of
        Some (ms, q, r) \<Rightarrow> expand tpl (groups ms) @ re_sub_from p tpl q r
      | None \<Rightarrow> (case s of [] \<Rightarrow> [] | x # xs \<Rightarrow> x # re_sub_from p tpl (Some x) xs))"
  unfolding re_sub_from_def
  by (subst re_scan_consuming[OF assms]) (auto split: option.splits list.splits)

lemma re_sub_eq_from: "re_sub p tpl s = re_sub_from p tpl None s"
  by (simp add: re_sub_def re_sub_from_def)

text \<open>A relation that holds of each replacement and the text it replaces holds of the whole.\<close>

lemma re_sub_from_rel:
  assumes c: "consuming p"
    and nil: "R [] []"
    and app: "\<And>a b c d. R a b \<Longrightarrow> R c d \<Longrightarrow> R (a @ c) (b @ d)"
    and chr: "\<And>x. R [x] [x]"
    and M: "\<And>prev s ms q r. rmatch p None prev s = Some (ms, q, r) \<Longrightarrow>
              R (expand tpl (groups ms)) (between s r)"
  shows "R (re_sub_from p tpl prev s) s"
proof (induction "length s" arbitrary: s prev rule: less_induct)
  case less
  show ?case
  proof (cases "rmatch p None prev s")
    case None
    show ?thesis
    proof (cases s)
      case Nil
      with None show ?thesis by (simp add: re_sub_from_unfold[OF c] nil)
    next
      case (Cons x xs)
      have "R (re_sub_from p tpl (Some x) xs) xs" using less[of xs] Cons by simp
      from app[OF chr[of x] this] None Cons show ?thesis
        by (simp add: re_sub_from_unfold[OF c])
    qed
  next
    case (Some m)
    obtain ms q r where m: "m = (ms, q, r)" by (cases m)
    with Some have h: "rmatch p None prev s = Some (ms, q, r)" by simp
    have "length r < length s" using rmatch_consuming[OF c h] .
    then have "R (re_sub_from p tpl q r) r" using less by simp
    from app[OF M[OF h] this] have "R (expand tpl (groups ms) @ re_sub_from p tpl q r) (between s r @ r)" .
    with rmatch_suffix[OF h] h show ?thesis
      by (simp add: re_sub_from_unfold[OF c, of tpl prev s])
  qed
qed

lemma rmatch_lit:
  "rmatch (lit w @ is) adv prev s =
     (if prefix w s then rmatch is adv (prev_after prev w) (drop (length w) s) else None)"
proof (induction w arbitrary: prev s)
  case Nil
  then show ?case by (simp add: lit_def prev_after_def)
next
  case (Cons c w)
  show ?case
  proof (cases s)
    case Nil
    then show ?thesis by (simp add: lit_def)
  next
    case (Cons x xs)
    with Cons.IH[of "Some x" xs] show ?thesis by (auto simp: lit_def prev_after_def)
  qed
qed

lemma rmatch_liti:
  "rmatch (liti w @ is) adv prev s =
     (if length w \<le> length s \<and> same_nocase (take (length w) s) w
      then rmatch is adv (prev_after prev (take (length w) s)) (drop (length w) s) else None)"
proof (induction w arbitrary: prev s)
  case Nil
  then show ?case by (simp add: liti_def prev_after_def same_nocase_def)
next
  case (Cons c w)
  show ?case
  proof (cases s)
    case Nil
    then show ?thesis by (simp add: liti_def)
  next
    case (Cons x xs)
    with Cons.IH[of "Some x" xs] show ?thesis
      by (auto simp: liti_def prev_after_def same_nocase_def)
  qed
qed

lemma rmatch_rep_greedy:
  assumes A: "\<And>prev x xs. in_class cl x \<Longrightarrow> rmatch is adv prev (x # xs) = None"
  shows "rmatch (Rep cl lo None # is) adv prev s =
     (if lo \<le> length (run cl s) then rmatch is adv (prev_after prev (run cl s)) (after_run cl s) else None)"
proof (induction s arbitrary: lo prev)
  case Nil
  then show ?case by (simp add: run_def after_run_def prev_after_def)
next
  case (Cons x xs)
  show ?case
  proof (cases "in_class cl x")
    case True
    have "rmatch is adv prev (x # xs) = None" using A[OF True] .
    with True Cons[of "lo - 1" "Some x"] show ?thesis
      by (auto simp: run_def after_run_def prev_after_def split: option.splits)
  next
    case False
    then show ?thesis by (simp add: run_def after_run_def prev_after_def)
  qed
qed

lemma rmatch_rep_greedy_end:
  "rmatch [Rep cl lo None, Mark] None prev s =
     (if lo \<le> length (run cl s) then Some ([after_run cl s], prev_after prev (run cl s), after_run cl s) else None)"
proof (induction s arbitrary: lo prev)
  case Nil
  then show ?case by (simp add: run_def after_run_def prev_after_def)
next
  case (Cons x xs)
  show ?case
  proof (cases "in_class cl x")
    case True
    with Cons[of "lo - 1" "Some x"] show ?thesis
      by (auto simp: run_def after_run_def prev_after_def split: option.splits)
  next
    case False
    then show ?thesis by (simp add: run_def after_run_def prev_after_def)
  qed
qed

lemma run_after_run: "run cl s @ after_run cl s = s"
  by (simp add: run_def after_run_def)

lemma between_after_run: "between s (after_run cl s) = run cl s"
proof -
  have "length s = length (run cl s) + length (after_run cl s)"
    by (metis run_after_run length_append)
  then have "take (length s - length (after_run cl s)) (run cl s @ after_run cl s) = run cl s"
    by simp
  then show ?thesis by (simp add: run_after_run)
qed

lemma between_drop: "n \<le> length s \<Longrightarrow> between s (drop n s) = take n s"
  by simp

lemma rmatch_lit_only:
  "rmatch (lit w) adv prev s =
     (if prefix w s then rmatch [] adv (prev_after prev w) (drop (length w) s) else None)"
  using rmatch_lit[of w "[]" adv prev s] by simp

lemma consuming_lit: "w \<noteq> [] \<Longrightarrow> consuming (lit w @ is)"
  by (cases w) (simp_all add: lit_def)

lemma consuming_lit_only: "w \<noteq> [] \<Longrightarrow> consuming (lit w)"
  using consuming_lit[of w "[]"] by simp

lemma consuming_word_re: "w \<noteq> [] \<Longrightarrow> consuming (word_re w)"
  by (simp add: word_re_def consuming_lit)

lemma rmatch_lit_between:
  assumes "rmatch (lit w) None prev s = Some (ms, q, r)"
  shows "ms = [] \<and> between s r = w"
proof -
  from assms have p: "prefix w s" and r: "r = drop (length w) s" and "ms = []"
    by (auto simp: rmatch_lit_only split: if_splits)
  from p obtain t where "s = w @ t" by (auto simp: prefix_def)
  with r \<open>ms = []\<close> show ?thesis by simp
qed

lemma rmatch_word_re_between:
  assumes "rmatch (word_re w) None prev s = Some (ms, q, r)"
  shows "ms = [] \<and> between s r = w"
proof -
  have "rmatch (lit w @ [WordB]) None prev s = Some (ms, q, r)"
    using assms by (simp add: word_re_def split: if_splits)
  then have p: "prefix w s" and r: "r = drop (length w) s" and "ms = []"
    by (auto simp: rmatch_lit split: if_splits)
  from p obtain t where "s = w @ t" by (auto simp: prefix_def)
  with r \<open>ms = []\<close> show ?thesis by simp
qed

lemma re_sub_identity:
  assumes c: "consuming p"
    and M: "\<And>prev s ms q r. rmatch p None prev s = Some (ms, q, r) \<Longrightarrow>
              expand tpl (groups ms) = between s r"
  shows "re_sub p tpl s = s"
  unfolding re_sub_eq_from
  by (rule re_sub_from_rel[where R = "(=)", OF c]) (auto dest: M)

lemma serial_id_rule_identity: "re_sub serial_id_re [TLit ''id SERIAL PRIMARY KEY''] s = s"
proof (rule re_sub_identity)
  show "consuming serial_id_re" by (simp add: serial_id_re_def consuming_word_re)
next
  fix prev s ms q r
  assume "rmatch serial_id_re None prev s = Some (ms, q, r)"
  then show "expand [TLit ''id SERIAL PRIMARY KEY''] (groups ms) = between s r"
    unfolding serial_id_re_def by (auto dest!: rmatch_word_re_between)
qed

lemma default_timestamp_rule_identity: "re_sub default_timestamp_re [TLit ''DEFAULT CURRENT_TIMESTAMP''] s = s"
proof (rule re_sub_identity)
  show "consuming default_timestamp_re" by (simp add: default_timestamp_re_def consuming_lit_only)
next
  fix prev s ms q r
  assume "rmatch default_timestamp_re None prev s = Some (ms, q, r)"
  then show "expand [TLit ''DEFAULT CURRENT_TIMESTAMP''] (groups ms) = between s r"
    unfolding default_timestamp_re_def by (auto dest!: rmatch_lit_between)
qed

section \<open>The two rules that replace a text by itself\<close>

text \<open>
  Claim C9.  In \<open>convert-to-postgres.py\<close> the rule that replaces \<open>id SERIAL PRIMARY KEY\<close> by
  itself and the rule that replaces \<open>DEFAULT CURRENT_TIMESTAMP\<close> by itself leave every text as
  it is, so the rules without these two compute the same text as all the rules.
\<close>

theorem identity_rules_removable:
  "re_sub serial_id_re [TLit ''id SERIAL PRIMARY KEY''] s = s \<and>
   re_sub default_timestamp_re [TLit ''DEFAULT CURRENT_TIMESTAMP''] s = s \<and>
   schema_rewrite s = schema_rewrite_short s"
  by (simp add: serial_id_rule_identity default_timestamp_rule_identity
      schema_rewrite_def schema_rewrite_short_def Let_def)

section \<open>Trimming\<close>

lemma startswith_strip:
  assumes "p \<noteq> []" and "\<not> is_space (last p)"
  shows "startswith (strip s) p = startswith (lstrip s) p"
proof -
  define t where "t = dropWhile is_space s"
  define rs where "rs = rev (dropWhile is_space (rev t))"
  have t: "t = rs @ rev (takeWhile is_space (rev t))"
    unfolding rs_def by (metis rev_append rev_rev_ident takeWhile_dropWhile_id)
  have "(take (length p) rs = p) = (take (length p) t = p)"
  proof
    assume a: "take (length p) rs = p"
    have "length (take (length p) rs) = min (length rs) (length p)" by simp
    with a have le: "length p \<le> length rs" by simp
    have "take (length p) t = take (length p) (rs @ rev (takeWhile is_space (rev t)))"
      using t by simp
    also have "\<dots> = take (length p) rs" using le by simp
    finally show "take (length p) t = p" using a by simp
  next
    assume "take (length p) t = p"
    then obtain t' where t': "t = p @ t'" by (metis append_take_drop_id)
    have np: "\<not> (\<forall>x\<in>set (rev p). is_space x)" using assms by (metis last_in_set set_rev)
    have hd: "dropWhile is_space (rev p) = rev p"
      using assms by (cases "rev p") (auto simp: last_rev[symmetric] hd_rev)
    have "rs = p @ rev (dropWhile is_space (rev t')) \<or> rs = p"
      unfolding rs_def t' by (auto simp: dropWhile_append hd)
    then show "take (length p) rs = p" by auto
  qed
  then show ?thesis by (simp add: startswith_def strip_def lstrip_def t_def rs_def)
qed

lemma is_insert_line_lstrip: "is_insert_line line = startswith (lstrip line) ''INSERT INTO''"
  unfolding is_insert_line_def by (rule startswith_strip) (simp_all add: is_space_def)

section \<open>Adjacent boolean values\<close>

text \<open>
  Claim C3.  The rules for \<open>,0,\<close> and \<open>,1,\<close> consume the comma that the next value needs:
  of two equal values in a row only the first is rewritten, although the second stands
  between commas as well.
\<close>

theorem adjacent_booleans:
  "convert_booleans ''(5,0,0,5)'' = ''(5,FALSE,0,5)'' \<and>
   rewrite_inserts Inr (insert_lines_of ''INSERT INTO t VALUES(5,0,0,5);'') =
     Inr (''INSERT INTO '' @ [dq] @ ''t'' @ [dq] @ '' VALUES(5,FALSE,0,5);'')"
  by code_simp

section \<open>References to names that are quoted already\<close>

text \<open>
  Claim C7.  A referenced table and column written in backticks are quoted by the backtick
  rule and then quoted once more by the rule for \<open>REFERENCES\<close>: they end up between two
  layers of double quotes.
\<close>

theorem references_quoted_twice:
  "schema_rewrite (''REFERENCES '' @ [bt] @ ''t'' @ [bt] @ ''('' @ [bt] @ ''c'' @ [bt] @ '')'')
     = ''REFERENCES '' @ [dq, dq] @ ''t'' @ [dq, dq] @ ''('' @ [dq, dq] @ ''c'' @ [dq, dq] @ '')''"
  by code_simp

section \<open>No insertion line\<close>

lemma no_insert_lines:
  assumes "\<forall>line\<in>set (split_on nl content). \<not> startswith (lstrip line) ''INSERT INTO''"
  shows "insert_lines_of content = []"
  using assms by (simp add: insert_lines_of_def is_insert_line_lstrip filter_empty_conv)

text \<open>
  Claim C5.  When no line of the input, trimmed of leading whitespace, begins with
  \<open>INSERT INTO\<close>, the run prints \<open>No INSERT statements found in input file\<close> (followed by
  the closing message of \<open>main\<close>), leaves every file as it was and exits with code 0.
\<close>

theorem no_insert_statements:
  assumes "files w input_file = Some content"
    and "\<forall>line\<in>set (split_on nl content). \<not> startswith (lstrip line) ''INSERT INTO''"
  shows "data_main e w input_file output_file =
           (w\<lparr>stdout := stdout w @ [''No INSERT statements found in input file'',
                                    ''Data conversion completed successfully!'']\<rparr>, 0)"
  using assms(1) no_insert_lines[OF assms(2)]
  by (simp add: data_main_def convert_sqlite_data_to_postgres_def read_file_def print_def)

theorem no_insert_statements_witness:
  "data_main \<lparr>platform_localtime = Inr, clock = 0\<rparr>
     (world_with ''dump.sql'' (''CREATE TABLE t (id integer);'' @ [nl] @ ''PRAGMA x;''))
     ''dump.sql'' ''out.sql'' =
   ((world_with ''dump.sql'' (''CREATE TABLE t (id integer);'' @ [nl] @ ''PRAGMA x;''))
      \<lparr>stdout := [''No INSERT statements found in input file'',
                  ''Data conversion completed successfully!'']\<rparr>, 0)"
proof -
  let ?c = "''CREATE TABLE t (id integer);'' @ [nl] @ ''PRAGMA x;''"
  have f: "files (world_with ''dump.sql'' ?c) ''dump.sql'' = Some ?c"
    by (simp add: world_with_def)
  have n: "\<forall>line\<in>set (split_on nl ?c). \<not> startswith (lstrip line) ''INSERT INTO''"
    by (simp add: startswith_def lstrip_def is_space_def)
  show ?thesis
    using no_insert_statements[OF f n] by (simp add: world_with_def)
qed

section \<open>The output and the clock\<close>

lemma schema_main_written:
  assumes "files w i = Some c" and "\<not> unwritable w out"
  shows "files (fst (schema_main w i out)) out = Some (schema_preamble @ schema_rewrite c)"
  using assms
  by (simp add: schema_main_def convert_sqlite_to_postgres_def read_file_def write_file_def print_def)

lemma data_main_written:
  assumes "files w i = Some c" and "\<not> unwritable w out"
    and "insert_lines_of c \<noteq> []"
    and "rewrite_inserts (platform_localtime e) (insert_lines_of c) = Inr body"
    and "fromtimestamp (platform_localtime e) (clock e) = Inr now"
  shows "data_main e w i out =
     (w\<lparr>files := (files w)(out \<mapsto> data_preamble (strftime now) @ body @ data_postamble),
        stdout := stdout w @ [''Converted '' @ dec_str (length (insert_lines_of c)) @
                                '' INSERT statements from '' @ i @ '' to '' @ out,
                              ''Data conversion completed successfully!'']\<rparr>, 0)"
  using assms
  by (simp add: data_main_def convert_sqlite_data_to_postgres_def read_file_def write_file_def
      print_def Let_def)

text \<open>
  Claim C4, as the code has it.  The text that \<open>convert-to-postgres.py\<close> writes is a function
  of the input text alone.  The text that \<open>convert-data-only.py\<close> writes is the preamble with
  the local time of the run in its second line, the rewritten insertion lines, which depend
  on the input text and the local time zone, and the postamble.
\<close>

theorem output_function_of_input:
  assumes "files w i = Some c" and "\<not> unwritable w out"
  shows "files (fst (schema_main w i out)) out = Some (schema_preamble @ schema_rewrite c) \<and>
         (insert_lines_of c \<noteq> [] \<and>
          rewrite_inserts (platform_localtime e) (insert_lines_of c) = Inr body \<and>
          fromtimestamp (platform_localtime e) (clock e) = Inr now \<longrightarrow>
          files (fst (data_main e w i out)) out =
            Some (data_preamble (strftime now) @ body @ data_postamble))"
  using schema_main_written[OF assms] data_main_written[OF assms]
  by simp

section \<open>Failures of the timestamp conversion\<close>

lemma py_int_error: "py_int t = Inl e \<Longrightarrow> e = ValueError"
  by (auto simp: py_int_def Let_def split: if_splits list.splits prod.splits)

lemma fromtimestamp_error:
  "fromtimestamp lt n = Inl e \<Longrightarrow> e = ValueError \<or> lt n = Inl e"
  by (auto simp: fromtimestamp_def Let_def split: sum.splits if_splits)

lemma callback_caught:
  assumes "py_int (group gs 1) = Inl e \<or>
           (\<exists>n. py_int (group gs 1) = Inr n \<and>
                fromtimestamp lt (if n > 10000000000 then n div 1000 else n) = Inl e)"
    and "e = ValueError \<or> e = OSError"
  shows "unix_timestamp_to_postgres lt gs = Inr (quoted (group gs 1))"
  using assms
  by (auto simp: unix_timestamp_to_postgres_def Let_def simp del: group.simps)

lemma callback_total:
  assumes "\<forall>n. lt n \<noteq> Inl OverflowError"
  shows "\<exists>t. unix_timestamp_to_postgres lt gs = Inr t"
proof (cases "py_int (group gs 1)")
  case (Inl e)
  with py_int_error[OF Inl] show ?thesis
    by (simp add: unix_timestamp_to_postgres_def Let_def del: group.simps)
next
  case (Inr n)
  show ?thesis
  proof (cases "fromtimestamp lt (if n > 10000000000 then n div 1000 else n)")
    case (Inl e)
    from fromtimestamp_error[OF Inl] assms have "e \<noteq> OverflowError" by auto
    with Inr Inl show ?thesis
      by (cases e) (simp_all add: unix_timestamp_to_postgres_def Let_def del: group.simps)
  next
    case (Inr dt)
    with \<open>py_int (group gs 1) = Inr n\<close> show ?thesis
      by (simp add: unix_timestamp_to_postgres_def Let_def del: group.simps)
  qed
qed

lemma subst_all_total:
  assumes "\<And>gs. \<exists>t. f gs = Inr t"
  shows "\<exists>out. subst_all f ps = Inr out"
proof (induction ps)
  case Nil
  then show ?case by simp
next
  case (Cons a ps)
  then obtain u where u: "subst_all f ps = Inr u" by blast
  show ?case
  proof (cases a)
    case (Inl c)
    with u show ?thesis by simp
  next
    case (Inr gs)
    from assms[of gs] obtain t where "f gs = Inr t" by blast
    with Inr u show ?thesis by simp
  qed
qed

lemma rewrite_inserts_total:
  assumes "\<forall>n. lt n \<noteq> Inl OverflowError"
  shows "\<exists>body. rewrite_inserts lt ls = Inr body"
proof -
  obtain out where "re_sub_call timestamp_re (unix_timestamp_to_postgres lt)
                      (quote_table_names (join [nl] ls)) = Inr out"
    unfolding re_sub_call_def
    using subst_all_total[of "unix_timestamp_to_postgres lt"] callback_total[OF assms] by blast
  then show ?thesis by (simp add: rewrite_inserts_def Let_def)
qed

lemma data_main_completes:
  assumes "\<forall>n. platform_localtime e n \<noteq> Inl OverflowError"
    and "files w i = Some c" and "\<not> unwritable w out"
    and "fromtimestamp (platform_localtime e) (clock e) = Inr now"
  shows "snd (data_main e w i out) = 0"
proof (cases "insert_lines_of c = []")
  case True
  with assms show ?thesis
    by (simp add: data_main_def convert_sqlite_data_to_postgres_def read_file_def print_def)
next
  case False
  from rewrite_inserts_total[OF assms(1)] obtain body where
    "rewrite_inserts (platform_localtime e) (insert_lines_of c) = Inr body" by blast
  from data_main_written[OF assms(2,3) False this assms(4)] show ?thesis by simp
qed

theorem output_function_of_input_witness:
  "files (fst (schema_main (world_with ''dump.sql'' ''INSERT INTO t VALUES(1);'') ''dump.sql'' ''out.sql'')) ''out.sql''
     = Some (schema_preamble @ schema_rewrite ''INSERT INTO t VALUES(1);'') \<and>
   files (fst (data_main \<lparr>platform_localtime = Inr, clock = 0\<rparr>
                (world_with ''dump.sql'' ''INSERT INTO t VALUES(1);'') ''dump.sql'' ''out.sql'')) ''out.sql''
     = Some (data_preamble ''1970-01-01 00:00:00'' @
             (''INSERT INTO '' @ [dq] @ ''t'' @ [dq] @ '' VALUES(1);'') @ data_postamble)"
proof -
  let ?c = "''INSERT INTO t VALUES(1);''"
  let ?w = "world_with ''dump.sql'' ?c"
  let ?e = "\<lparr>platform_localtime = Inr, clock = 0\<rparr>"
  let ?body = "''INSERT INTO '' @ [dq] @ ''t'' @ [dq] @ '' VALUES(1);''"
  have f: "files ?w ''dump.sql'' = Some ?c" by (simp add: world_with_def)
  have u: "\<not> unwritable ?w ''out.sql''" by (simp add: world_with_def)
  have l: "insert_lines_of ?c \<noteq> []" by code_simp
  have r: "rewrite_inserts (platform_localtime ?e) (insert_lines_of ?c) = Inr ?body"
    by code_simp
  have n: "fromtimestamp (platform_localtime ?e) (clock ?e) = Inr (civil 0)"
    by code_simp
  have s: "strftime (civil 0) = ''1970-01-01 00:00:00''" by code_simp
  note T = output_function_of_input[OF f u, of ?e ?body "civil 0"]
  have "files (fst (data_main ?e ?w ''dump.sql'' ''out.sql'')) ''out.sql'' =
          Some (data_preamble (strftime (civil 0)) @ ?body @ data_postamble)"
    by (rule mp[OF conjunct2[OF T]]) (intro conjI l r n)
  then have "files (fst (data_main ?e ?w ''dump.sql'' ''out.sql'')) ''out.sql'' =
          Some (data_preamble ''1970-01-01 00:00:00'' @ ?body @ data_postamble)"
    by (simp only: s)
  with conjunct1[OF T] show ?thesis by (rule conjI)
qed

text \<open>Two runs on the same input, one second apart, write different texts.\<close>

theorem output_depends_on_clock:
  "files (fst (data_main \<lparr>platform_localtime = Inr, clock = 0\<rparr>
                 (world_with ''dump.sql'' ''INSERT INTO t VALUES(1);'') ''dump.sql'' ''out.sql'')) ''out.sql''
   \<noteq> files (fst (data_main \<lparr>platform_localtime = Inr, clock = 1\<rparr>
                 (world_with ''dump.sql'' ''INSERT INTO t VALUES(1);'') ''dump.sql'' ''out.sql'')) ''out.sql''"
  by code_simp

text \<open>
  Claim C8 says that a failed construction of the timestamp makes the callback return the
  matched digits between single quotes, and that the run goes on.  The \<open>except\<close> clause of
  the callback names \<open>ValueError\<close> and \<open>OSError\<close> only.  Where \<open>time_t\<close> has 32 bits,
  \<open>datetime.fromtimestamp\<close> fails on the matched literal \<open>10000000000\<close> with
  \<open>OverflowError\<close>: the callback raises and returns nothing, and the run on a dump with
  the line \<open>INSERT INTO t VALUES(10000000000);\<close> ends with exit code 1.
\<close>

theorem overflow_not_caught:
  "fromtimestamp localtime32 10000000000 = Inl OverflowError \<and>
   unix_timestamp_to_postgres localtime32 [''10000000000''] = Inl OverflowError \<and>
   snd (data_main \<lparr>platform_localtime = localtime32, clock = 0\<rparr>
          (world_with ''dump.sql'' ''INSERT INTO t VALUES(10000000000);'') ''dump.sql'' ''out.sql'') = 1"
  by code_simp

section \<open>Quoting of table names\<close>

lemma rmatch_insert_into:
  "rmatch insert_into_re None prev s =
     (if insert_hit s
      then Some ([drop 12 s, after_run table_name_class (drop 12 s)],
                 prev_after (Some CHR '' '') (run table_name_class (drop 12 s)),
                 after_run table_name_class (drop 12 s))
      else None)"
proof -
  have len: "length ''INSERT INTO '' = 12" by simp
  have pa: "prev_after prev ''INSERT INTO '' = Some CHR '' ''" by (simp add: prev_after_def)
  have 1: "rmatch insert_into_re None prev s =
     (if prefix ''INSERT INTO '' s
      then rmatch (Mark # [Rep table_name_class 1 None, Mark]) None (Some CHR '' '') (drop 12 s)
      else None)"
    unfolding insert_into_re_def
    using rmatch_lit[of "''INSERT INTO ''" "[Mark, Rep table_name_class 1 None, Mark]" None prev s]
    by (simp only: len pa)
  have 2: "rmatch (Mark # [Rep table_name_class 1 None, Mark]) None (Some CHR '' '') (drop 12 s) =
     (if run table_name_class (drop 12 s) \<noteq> []
      then Some ([drop 12 s, after_run table_name_class (drop 12 s)],
                 prev_after (Some CHR '' '') (run table_name_class (drop 12 s)),
                 after_run table_name_class (drop 12 s))
      else None)"
    by (cases "run table_name_class (drop 12 s)")
       (simp_all add: rmatch_rep_greedy_end del: rmatch.simps(8) rmatch.simps(9))
  show ?thesis unfolding 1 2 by (simp add: insert_hit_def)
qed

lemma consuming_insert_into: "consuming insert_into_re"
  by (simp add: insert_into_re_def consuming_lit)

lemma insert_into_groups:
  "groups [drop 12 s, after_run table_name_class (drop 12 s)] = [run table_name_class (drop 12 s)]"
  using between_after_run[of "drop 12 s" table_name_class] by simp

lemma re_sub_from_insert_unfold:
  "re_sub_from insert_into_re tpl prev s =
     (if insert_hit s
      then expand tpl [run table_name_class (drop 12 s)] @
           re_sub_from insert_into_re tpl
             (prev_after (Some CHR '' '') (run table_name_class (drop 12 s)))
             (after_run table_name_class (drop 12 s))
      else (case s of [] \<Rightarrow> [] | x # xs \<Rightarrow> x # re_sub_from insert_into_re tpl (Some x) xs))"
  by (subst re_sub_from_unfold[OF consuming_insert_into])
     (simp only: rmatch_insert_into insert_into_groups option.case prod.case if_distrib[of "case_option _ _"] cong: if_cong)

lemma insert_hit_shorter:
  "insert_hit s \<Longrightarrow> length (after_run table_name_class (drop 12 s)) < length s"
  using rmatch_consuming[OF consuming_insert_into, of None None s]
  by (simp add: rmatch_insert_into)

lemma re_sub_from_insert_prev:
  "re_sub_from insert_into_re tpl prev s = re_sub_from insert_into_re tpl None s"
proof (induction "length s" arbitrary: s prev rule: less_induct)
  case less
  show ?case
  proof (cases "insert_hit s")
    case True
    let ?r = "after_run table_name_class (drop 12 s)"
    let ?q = "prev_after (Some CHR '' '') (run table_name_class (drop 12 s))"
    have "re_sub_from insert_into_re tpl prev s =
            expand tpl [run table_name_class (drop 12 s)] @ re_sub_from insert_into_re tpl ?q ?r"
      using True by (subst re_sub_from_insert_unfold) simp
    also have "\<dots> = re_sub_from insert_into_re tpl None s"
      using True by (subst (2) re_sub_from_insert_unfold) simp
    finally show ?thesis .
  next
    case False
    show ?thesis
    proof (cases s)
      case Nil
      with False show ?thesis
        by (subst (1 2) re_sub_from_insert_unfold) simp
    next
      case (Cons x xs)
      have "re_sub_from insert_into_re tpl prev s = x # re_sub_from insert_into_re tpl (Some x) xs"
        using False Cons by (subst re_sub_from_insert_unfold) simp
      also have "\<dots> = re_sub_from insert_into_re tpl None s"
        using False Cons by (subst (2) re_sub_from_insert_unfold) simp
      finally show ?thesis .
    qed
  qed
qed

lemma quote_table_names_hit:
  assumes "insert_hit s"
  shows "quote_table_names s =
           ''INSERT INTO '' @ [dq] @ run table_name_class (drop 12 s) @ [dq] @
           quote_table_names (after_run table_name_class (drop 12 s))"
proof -
  have "re_sub_from insert_into_re insert_into_tpl None s =
          expand insert_into_tpl [run table_name_class (drop 12 s)] @
          re_sub_from insert_into_re insert_into_tpl
             (prev_after (Some CHR '' '') (run table_name_class (drop 12 s)))
             (after_run table_name_class (drop 12 s))"
    using assms by (subst re_sub_from_insert_unfold) simp
  also have "re_sub_from insert_into_re insert_into_tpl
             (prev_after (Some CHR '' '') (run table_name_class (drop 12 s)))
             (after_run table_name_class (drop 12 s)) =
             quote_table_names (after_run table_name_class (drop 12 s))"
    by (simp add: quote_table_names_def re_sub_eq_from re_sub_from_insert_prev[of _ "prev_after _ _"])
  finally show ?thesis
    by (simp add: quote_table_names_def re_sub_eq_from insert_into_tpl_def)
qed

lemma quote_table_names_miss:
  assumes "\<not> insert_hit (x # xs)"
  shows "quote_table_names (x # xs) = x # quote_table_names xs"
proof -
  have "re_sub_from insert_into_re insert_into_tpl None (x # xs) =
          x # re_sub_from insert_into_re insert_into_tpl (Some x) xs"
    using assms by (subst re_sub_from_insert_unfold) simp
  then show ?thesis
    by (simp add: quote_table_names_def re_sub_eq_from re_sub_from_insert_prev[of _ "Some _"])
qed

lemma quote_table_names_Nil: "quote_table_names [] = []"
proof -
  have "\<not> insert_hit []" by (simp add: insert_hit_def)
  then have "re_sub_from insert_into_re insert_into_tpl None [] = []"
    by (subst re_sub_from_insert_unfold) simp
  then show ?thesis by (simp add: quote_table_names_def re_sub_eq_from)
qed

lemma run_take1: "(run cl (take (Suc 0) t) \<noteq> []) = (run cl t \<noteq> [])"
  by (cases t) (simp_all add: run_def)

lemma insert_hit_take: "insert_hit (take 13 s) = insert_hit s"
proof -
  have p: "prefix ''INSERT INTO '' (take 13 s) = prefix ''INSERT INTO '' s"
  proof
    assume "prefix ''INSERT INTO '' (take 13 s)"
    then show "prefix ''INSERT INTO '' s" by (meson prefix_order.trans take_is_prefix)
  next
    assume a: "prefix ''INSERT INTO '' s"
    then obtain t where "s = ''INSERT INTO '' @ t" by (auto simp: prefix_def)
    then show "prefix ''INSERT INTO '' (take 13 s)" by simp
  qed
  have "drop 12 (take 13 s) = take 1 (drop 12 s)" by (simp add: drop_take)
  then show ?thesis by (simp add: insert_hit_def p run_take1)
qed

lemma quote_table_names_take: "take 12 (quote_table_names s) = take 12 s"
proof (induction "length s" arbitrary: s rule: less_induct)
  case less
  show ?case
  proof (cases "insert_hit s")
    case True
    then obtain t where "s = ''INSERT INTO '' @ t" by (auto simp: insert_hit_def prefix_def)
    then show ?thesis using quote_table_names_hit[OF True] by simp
  next
    case False
    show ?thesis
    proof (cases s)
      case Nil
      then show ?thesis by (simp add: quote_table_names_Nil)
    next
      case (Cons x xs)
      have "take 12 (quote_table_names xs) = take 12 xs" using less[of xs] Cons by simp
      then have "take 11 (take 12 (quote_table_names xs)) = take 11 (take 12 xs)" by simp
      then have "take 11 (quote_table_names xs) = take 11 xs" by simp
      with False Cons show ?thesis by (simp add: quote_table_names_miss)
    qed
  qed
qed

lemma insert_hit_quoted: "insert_hit (x # quote_table_names xs) = insert_hit (x # xs)"
proof -
  have "take 13 (x # quote_table_names xs) = take 13 (x # xs)"
    using quote_table_names_take[of xs] by simp
  then show ?thesis by (metis insert_hit_take)
qed

lemma no_hit_in_name:
  assumes "\<forall>c\<in>set u. in_class table_name_class c"
  shows "\<not> insert_hit (u @ dq # t)"
proof
  assume "insert_hit (u @ dq # t)"
  then have p: "prefix ''INSERT INTO '' (u @ dq # t)" by (simp add: insert_hit_def)
  have sp: "\<not> in_class table_name_class CHR '' ''"
    by (simp add: table_name_class_def is_space_def)
  from p consider "prefix ''INSERT INTO '' u"
    | us where "''INSERT INTO '' = u @ us" "prefix us (dq # t)"
    by (auto simp: prefix_append)
  then show False
  proof cases
    case 1
    then have "set ''INSERT INTO '' \<subseteq> set u" by (rule set_mono_prefix)
    then have "CHR '' '' \<in> set u" by auto
    with assms sp show False by blast
  next
    case 2
    show False
    proof (cases us)
      case Nil
      with 2 have "CHR '' '' \<in> set u" by (metis append_Nil2 in_set_conv_decomp list.set_intros(1) last_in_set last.simps list.distinct(1) last_snoc) 
      with assms sp show False by blast
    next
      case (Cons y ys)
      with 2(2) have "y = dq" by simp
      with 2(1) Cons have "dq \<in> set ''INSERT INTO ''" by (metis in_set_conv_decomp)
      then show False by simp
    qed
  qed
qed

lemma quote_skip_name:
  assumes "\<forall>c\<in>set g. in_class table_name_class c"
  shows "quote_table_names (g @ dq # t) = g @ dq # quote_table_names t"
  using assms
proof (induction g)
  case Nil
  have "\<not> insert_hit (dq # t)" by (simp add: insert_hit_def)
  then show ?case by (simp add: quote_table_names_miss)
next
  case (Cons x g)
  have "\<not> insert_hit ((x # g) @ dq # t)" using no_hit_in_name[OF Cons.prems] .
  then have "quote_table_names ((x # g) @ dq # t) = x # quote_table_names (g @ dq # t)"
    by (simp add: quote_table_names_miss)
  with Cons show ?case by simp
qed

lemma quote_skip_keyword:
  "quote_table_names (''INSERT INTO '' @ dq # r) = ''INSERT INTO '' @ dq # quote_table_names r"
proof -
  have 0: "\<not> insert_hit (''INSERT INTO '' @ dq # r)"
    by (simp add: insert_hit_def run_def table_name_class_def)
  have k: "\<And>u. \<not> insert_hit (CHR ''N'' # u)" "\<And>u. \<not> insert_hit (CHR ''S'' # u)"
    "\<And>u. \<not> insert_hit (CHR ''E'' # u)" "\<And>u. \<not> insert_hit (CHR ''R'' # u)"
    "\<And>u. \<not> insert_hit (CHR ''T'' # u)" "\<And>u. \<not> insert_hit (CHR '' '' # u)"
    "\<And>u. \<not> insert_hit (CHR ''O'' # u)" "\<And>u. \<not> insert_hit (dq # u)"
    by (simp_all add: insert_hit_def)
  have i: "\<And>u. \<not> insert_hit (CHR ''I'' # CHR ''N'' # CHR ''T'' # u)"
    by (simp add: insert_hit_def)
  have "quote_table_names (''INSERT INTO '' @ dq # r) =
          CHR ''I'' # quote_table_names (''NSERT INTO '' @ dq # r)"
    using 0 quote_table_names_miss[of "CHR ''I''" "''NSERT INTO '' @ dq # r"] by simp
  then show ?thesis by (simp add: quote_table_names_miss k i)
qed

lemma run_in_class: "\<forall>c\<in>set (run cl s). in_class cl c"
  by (auto simp: run_def dest: set_takeWhileD)

section \<open>The quoting of table names, applied twice\<close>

text \<open>
  Claim C10.  The rule that quotes the table name after \<open>INSERT INTO\<close>, used by both scripts,
  changes nothing when it is applied to its own result.
\<close>

theorem quote_table_names_idempotent:
  "quote_table_names (quote_table_names s) = quote_table_names s"
proof (induction "length s" arbitrary: s rule: less_induct)
  case less
  show ?case
  proof (cases "insert_hit s")
    case True
    let ?g = "run table_name_class (drop 12 s)"
    let ?r = "after_run table_name_class (drop 12 s)"
    have IH: "quote_table_names (quote_table_names ?r) = quote_table_names ?r"
      using less[OF insert_hit_shorter[OF True]] .
    have "quote_table_names (quote_table_names s) =
            quote_table_names (''INSERT INTO '' @ dq # (?g @ dq # quote_table_names ?r))"
      using quote_table_names_hit[OF True] by simp
    also have "\<dots> = ''INSERT INTO '' @ dq # quote_table_names (?g @ dq # quote_table_names ?r)"
      by (rule quote_skip_keyword)
    also have "\<dots> = ''INSERT INTO '' @ dq # ?g @ dq # quote_table_names (quote_table_names ?r)"
      using quote_skip_name[OF run_in_class] by simp
    also have "\<dots> = quote_table_names s"
      using quote_table_names_hit[OF True] IH by simp
    finally show ?thesis .
  next
    case False
    show ?thesis
    proof (cases s)
      case Nil
      then show ?thesis by (simp add: quote_table_names_Nil)
    next
      case (Cons x xs)
      have IH: "quote_table_names (quote_table_names xs) = quote_table_names xs"
        using less[of xs] Cons by simp
      have "\<not> insert_hit (x # quote_table_names xs)"
        using False Cons by (simp add: insert_hit_quoted)
      then have "quote_table_names (x # quote_table_names xs) = x # quote_table_names (quote_table_names xs)"
        by (rule quote_table_names_miss)
      with IH False Cons show ?thesis by (simp add: quote_table_names_miss)
    qed
  qed
qed

section \<open>The timestamp pattern\<close>

lemma rmatch_rep_bounded_word:
  assumes W: "\<And>x. in_class cl x \<Longrightarrow> is_word x" and P: "word_opt prev"
  shows "rmatch [Rep cl lo (Some hi), Mark, WordB] None prev s =
     (if lo \<le> length (run cl s) \<and> length (run cl s) \<le> hi \<and>
         \<not> word_opt (next_char (after_run cl s))
      then Some ([after_run cl s], prev_after prev (run cl s), after_run cl s) else None)"
  using P
proof (induction s arbitrary: lo hi prev)
  case Nil
  then show ?case by (simp add: run_def after_run_def prev_after_def)
next
  case (Cons x xs)
  show ?case
  proof (cases "in_class cl x")
    case True
    then have wx: "is_word x" by (rule W)
    have fb: "rmatch [Mark, WordB] None prev (x # xs) = None"
      using wx Cons.prems by simp
    show ?thesis
    proof (cases "0 < hi")
      case h: True
      have "word_opt (Some x)" using wx by simp
      from Cons.IH[OF this, of "lo - 1" "hi - 1"] True h fb show ?thesis
        by (auto simp: run_def after_run_def prev_after_def split: option.splits)
    next
      case False
      with True fb show ?thesis by (simp add: run_def after_run_def)
    qed
  next
    case False
    with Cons.prems show ?thesis
      by (auto simp: run_def after_run_def prev_after_def)
  qed
qed

lemma in_class_digit: "in_class (Pos [Range CHR ''0'' CHR ''9'']) c = is_digit c"
  by (simp add: is_digit_def)

lemma is_digit_word: "is_digit c \<Longrightarrow> is_word c"
  by (simp add: is_digit_def is_word_def)

lemma run_digit: "run (Pos [Range CHR ''0'' CHR ''9'']) s = takeWhile is_digit s"
  by (simp add: run_def in_class_digit[abs_def])

lemma after_run_digit: "after_run (Pos [Range CHR ''0'' CHR ''9'']) s = dropWhile is_digit s"
  by (simp add: after_run_def in_class_digit[abs_def])

lemma rmatch_timestamp:
  "rmatch timestamp_re None prev s =
     (if epoch_hit prev s
      then Some ([s, dropWhile is_digit s], Some (last (takeWhile is_digit s)), dropWhile is_digit s)
      else None)"
proof (cases s)
  case Nil
  then show ?thesis by (simp add: timestamp_re_def epoch_hit_def epoch_literal_def)
next
  case (Cons x xs)
  show ?thesis
  proof (cases "x = CHR ''1''")
    case False
    have "\<not> epoch_literal (takeWhile is_digit (x # xs))"
      using False by (auto simp: epoch_literal_def)
    with False Cons show ?thesis by (simp add: timestamp_re_def epoch_hit_def)
  next
    case True
    have d1: "is_digit CHR ''1''" by (simp add: is_digit_def)
    have w1: "is_word CHR ''1''" by (simp add: is_word_def)
    have tail: "rmatch [Rep (Pos [Range CHR ''0'' CHR ''9'']) 9 (Some 12), Mark, WordB] None (Some CHR ''1'') xs =
       (if 9 \<le> length (takeWhile is_digit xs) \<and> length (takeWhile is_digit xs) \<le> 12 \<and>
           \<not> word_opt (next_char (dropWhile is_digit xs))
        then Some ([dropWhile is_digit xs], prev_after (Some CHR ''1'') (takeWhile is_digit xs),
                   dropWhile is_digit xs) else None)"
      using rmatch_rep_bounded_word[of "Pos [Range CHR ''0'' CHR ''9'']" "Some CHR ''1''" 9 12 xs]
      by (simp add: in_class_digit is_digit_word w1 run_digit after_run_digit
            del: rmatch.simps in_class.simps)
    have lit: "epoch_literal (CHR ''1'' # takeWhile is_digit xs) =
                 (9 \<le> length (takeWhile is_digit xs) \<and> length (takeWhile is_digit xs) \<le> 12)"
      by (auto simp: epoch_literal_def d1 list_all_iff dest: set_takeWhileD)
    have "rmatch timestamp_re None prev (CHR ''1'' # xs) =
       (if \<not> word_opt prev then
          (case rmatch [Rep (Pos [Range CHR ''0'' CHR ''9'']) 9 (Some 12), Mark, WordB] None (Some CHR ''1'') xs of
             None \<Rightarrow> None | Some (ms, p, r) \<Rightarrow> Some ((CHR ''1'' # xs) # ms, p, r))
        else None)"
      by (simp add: timestamp_re_def w1 del: rmatch.simps(9) rmatch.simps(8))
    then show ?thesis
      unfolding tail using True Cons
      by (auto simp: epoch_hit_def d1 lit prev_after_def)
  qed
qed

lemma consuming_timestamp: "consuming timestamp_re"
  by (simp add: timestamp_re_def)

lemma timestamp_groups:
  "groups [s, dropWhile is_digit s] = [takeWhile is_digit s]"
proof -
  have "length s = length (takeWhile is_digit s) + length (dropWhile is_digit s)"
    by (metis takeWhile_dropWhile_id length_append)
  then have "length s - length (dropWhile is_digit s) = length (takeWhile is_digit s)" by simp
  then show ?thesis using takeWhile_eq_take[of is_digit s] by simp
qed

section \<open>Calendar dates and their text\<close>




lemma digit_char: "(m::nat) < 10 \<Longrightarrow> is_digit (char_of (48 + m))"
proof -
  assume a: "m < 10"
  then have "(48 + m) mod 256 = 48 + m" by simp
  then show ?thesis using a by (simp add: is_digit_def)
qed

lemma dec_str_digits: "list_all is_digit (dec_str n)"
proof (induction n rule: dec_str.induct)
  case (1 n)
  show ?case
  proof (cases "n < 10")
    case True
    then show ?thesis by (subst dec_str.simps) (simp add: digit_char)
  next
    case False
    have "n mod 10 < 10" by simp
    with 1[OF False] False show ?thesis
      by (subst dec_str.simps) (simp add: digit_char)
  qed
qed


lemma pad_digits: "list_all is_digit (pad w n)"
proof -
  have "is_digit CHR ''0''" by (simp add: is_digit_def)
  then have "list_all is_digit (replicate (w - length (dec_str (nat n))) CHR ''0'')"
    by (simp add: list_all_iff)
  then show ?thesis using dec_str_digits[of "nat n"] by (simp add: pad_def Let_def)
qed





section \<open>The scan of the timestamp rule\<close>

lemma ts_scan_unfold:
  "re_scan timestamp_re None prev s =
     (if epoch_hit prev s
      then Inr [takeWhile is_digit s] #
           re_scan timestamp_re None (Some (last (takeWhile is_digit s))) (dropWhile is_digit s)
      else (case s of [] \<Rightarrow> [] | x # xs \<Rightarrow> Inl x # re_scan timestamp_re None (Some x) xs))"
  by (subst re_scan_consuming[OF consuming_timestamp])
     (simp only: rmatch_timestamp timestamp_groups option.case prod.case
        if_distrib[of "case_option _ _"] cong: if_cong)

lemma epoch_hit_nonempty: "epoch_hit prev s \<Longrightarrow> takeWhile is_digit s \<noteq> []"
  by (auto simp: epoch_hit_def epoch_literal_def)

lemma is_word_digit: "\<not> is_word c \<Longrightarrow> \<not> is_digit c"
  using is_digit_word by blast

lemma ts_scan_Nil: "re_scan timestamp_re None prev [] = []"
  by (subst ts_scan_unfold) (simp add: epoch_hit_def epoch_literal_def)







lemma subst_all_append:
  "subst_all f (a @ b) =
     (case subst_all f a of
        Inl e \<Rightarrow> Inl e
      | Inr u \<Rightarrow> (case subst_all f b of Inl e \<Rightarrow> Inl e | Inr v \<Rightarrow> Inr (u @ v)))"
proof (induction a)
  case Nil
  then show ?case by (simp split: sum.splits)
next
  case (Cons x a)
  then show ?case by (cases x) (simp_all split: sum.splits)
qed


section \<open>The callback on a literal of 10 to 13 digits\<close>

lemma digit_not_space: "is_digit c \<Longrightarrow> \<not> is_space c"
  by (auto simp: is_digit_def is_space_def)








section \<open>Years of the local time\<close>





section \<open>Line breaks\<close>

lemma breaks_append: "breaks (a @ b) = breaks a + breaks b"
  by (simp add: breaks_def)

lemma breaks_Cons: "breaks (x # a) = (if x = nl then 1 else 0) + breaks a"
  by (simp add: breaks_def)

lemma breaks_Nil: "breaks [] = 0"
  by (simp add: breaks_def)

lemma breaks_digits: "list_all is_digit x \<Longrightarrow> breaks x = 0"
proof -
  assume a: "list_all is_digit x"
  have "\<not> is_digit nl" by (simp add: is_digit_def)
  with a have "nl \<notin> set x" by (auto simp: list_all_iff)
  then show ?thesis by (auto simp: breaks_def filter_empty_conv)
qed

lemma re_sub_breaks:
  assumes c: "consuming p"
    and M: "\<And>prev s ms q r. rmatch p None prev s = Some (ms, q, r) \<Longrightarrow>
              breaks (expand tpl (groups ms)) = breaks (between s r)"
  shows "breaks (re_sub p tpl s) = breaks s"
  unfolding re_sub_eq_from
  by (rule re_sub_from_rel[where R = "\<lambda>a b. breaks a = breaks b", OF c])
     (auto simp: breaks_append dest: M)

lemma lit_breaks:
  assumes "w \<noteq> []" and "breaks t = breaks w"
  shows "breaks (re_sub (lit w) [TLit t] s) = breaks s"
proof (rule re_sub_breaks)
  show "consuming (lit w)" using assms(1) by (rule consuming_lit_only)
next
  fix prev s ms q r
  assume "rmatch (lit w) None prev s = Some (ms, q, r)"
  from rmatch_lit_between[OF this] assms(2)
  show "breaks (expand [TLit t] (groups ms)) = breaks (between s r)" by simp
qed

lemma convert_booleans_breaks: "breaks (convert_booleans s) = breaks s"
  unfolding convert_booleans_def Let_def
  by (simp add: lit_breaks breaks_Cons breaks_Nil)

lemma values_null_breaks: "breaks (re_sub values_null_re values_null_tpl s) = breaks s"
  unfolding values_null_re_def values_null_tpl_def
  by (simp add: lit_breaks breaks_Cons breaks_Nil)

lemma quote_table_names_breaks: "breaks (quote_table_names s) = breaks s"
  unfolding quote_table_names_def
proof (rule re_sub_breaks[OF consuming_insert_into])
  fix prev s ms q r
  assume m: "rmatch insert_into_re None prev s = Some (ms, q, r)"
  let ?g = "run table_name_class (drop 12 s)" and ?a = "after_run table_name_class (drop 12 s)"
  from m have h: "insert_hit s" and ms: "ms = [drop 12 s, ?a]" and r: "r = ?a"
    by (auto simp: rmatch_insert_into split: if_splits)
  from h obtain t where s: "s = ''INSERT INTO '' @ t" by (auto simp: insert_hit_def prefix_def)
  then have t: "drop 12 s = t" by simp
  have ga: "t = run table_name_class t @ after_run table_name_class t"
    by (simp add: run_after_run)
  have "between s r = ''INSERT INTO '' @ run table_name_class t"
  proof -
    have "s = (''INSERT INTO '' @ run table_name_class t) @ after_run table_name_class t"
      using s ga by simp
    then have "take (length s - length (after_run table_name_class t)) s =
                 ''INSERT INTO '' @ run table_name_class t"
      by (metis append_eq_conv_conj length_append add_diff_cancel_right')
    then show ?thesis using r t by simp
  qed
  moreover have "groups ms = [run table_name_class t]"
    using ms t insert_into_groups[of s] by simp
  ultimately show "breaks (expand insert_into_tpl (groups ms)) = breaks (between s r)"
    by (simp add: insert_into_tpl_def breaks_append breaks_Cons breaks_Nil)
qed

lemma rmatch_chr2:
  assumes "rmatch [Mark, Chr c, Chr c] None p a = Some (ms, q, r)"
  shows "a = c # c # r \<and> ms = [a]"
proof (cases a)
  case Nil
  with assms show ?thesis by simp
next
  case (Cons y ys)
  show ?thesis
  proof (cases ys)
    case Nil
    with Cons assms show ?thesis by (simp split: if_splits)
  next
    case (Cons z zs)
    with \<open>a = y # ys\<close> assms show ?thesis by (auto split: if_splits)
  qed
qed

lemma rmatch_doubled_quotes:
  assumes "rmatch doubled_quotes_re None prev s = Some (ms, q, r)"
  shows "\<exists>g. groups ms = [g] \<and> between s r = [dq, dq] @ g @ [dq, dq]"
proof -
  let ?cl = "Neg [One dq]"
  let ?tail = "Rep ?cl 1 None # [Mark, Chr dq, Chr dq]"
  have A: "\<And>prev x xs. in_class ?cl x \<Longrightarrow> rmatch [Mark, Chr dq, Chr dq] None prev (x # xs) = None"
    by simp
  have d: "doubled_quotes_re = Chr dq # Chr dq # Mark # ?tail"
    by (simp add: doubled_quotes_re_def)
  obtain s2 where s: "s = dq # dq # s2"
  proof (cases s)
    case Nil
    with assms show ?thesis by (simp add: d)
  next
    case (Cons y ys)
    show ?thesis
    proof (cases ys)
      case Nil
      with Cons assms show ?thesis by (simp add: d split: if_splits)
    next
      case c2: (Cons z zs)
      with Cons assms have "y = dq" "z = dq"
        by (simp_all add: d split: if_splits del: rmatch.simps(7) rmatch.simps(8) rmatch.simps(9))
      with Cons c2 that show ?thesis by simp
    qed
  qed
  let ?g = "run ?cl s2" and ?a = "after_run ?cl s2"
  have 1: "rmatch doubled_quotes_re None prev s =
        (case rmatch ?tail None (Some dq) s2 of
           None \<Rightarrow> None | Some (ms, p, r) \<Rightarrow> Some (s2 # ms, p, r))"
    unfolding s d by (simp del: rmatch.simps(8) rmatch.simps(9))
  have 2: "rmatch ?tail None (Some dq) s2 =
        (if 1 \<le> length ?g then rmatch [Mark, Chr dq, Chr dq] None (prev_after (Some dq) ?g) ?a else None)"
    using A by (rule rmatch_rep_greedy)
  from assms obtain ms' where
    m: "rmatch [Mark, Chr dq, Chr dq] None (prev_after (Some dq) ?g) ?a = Some (ms', q, r)"
    and ms: "ms = s2 # ms'"
    unfolding 1 2 by (auto split: if_splits option.splits)
  from rmatch_chr2[OF m] have a: "?a = dq # dq # r" and ms': "ms' = [?a]" by auto
  have s2: "s2 = ?g @ dq # dq # r" using run_after_run[of ?cl s2] a by simp
  have "groups ms = [?g]" using ms ms' between_after_run[of s2 ?cl] by simp
  moreover have "between s r = [dq, dq] @ ?g @ [dq, dq]"
  proof -
    have "s = ([dq, dq] @ ?g @ [dq, dq]) @ r" using s s2 by simp
    then have "take (length s - length r) s = [dq, dq] @ ?g @ [dq, dq]"
      by (metis append_eq_conv_conj length_append add_diff_cancel_right')
    then show ?thesis by simp
  qed
  ultimately show ?thesis by blast
qed

lemma doubled_quotes_breaks: "breaks (re_sub doubled_quotes_re doubled_quotes_tpl s) = breaks s"
proof (rule re_sub_breaks)
  show "consuming doubled_quotes_re" by (simp add: doubled_quotes_re_def)
next
  fix prev s ms q r
  assume "rmatch doubled_quotes_re None prev s = Some (ms, q, r)"
  from rmatch_doubled_quotes[OF this] obtain g where
    "groups ms = [g]" "between s r = [dq, dq] @ g @ [dq, dq]" by blast
  then show "breaks (expand doubled_quotes_tpl (groups ms)) = breaks (between s r)"
    by (simp add: doubled_quotes_tpl_def breaks_append breaks_Cons breaks_Nil del: between.simps)
qed

lemma strftime_breaks: "breaks (strftime dt) = 0"
  unfolding strftime_def
  by (simp add: breaks_append breaks_Cons breaks_Nil breaks_digits[OF pad_digits])

lemma callback_breaks:
  assumes "unix_timestamp_to_postgres lt [w] = Inr t" and "list_all is_digit w"
  shows "breaks t = 0"
proof -
  have g: "group [w] 1 = w" by simp
  from assms(1) have "t = quoted w \<or> (\<exists>dt. t = quoted (strftime dt))"
    unfolding unix_timestamp_to_postgres_def g Let_def
    by (auto split: sum.splits pyexn.splits)
  then show ?thesis
    using breaks_digits[OF assms(2)]
    by (auto simp: quoted_def breaks_append breaks_Cons breaks_Nil strftime_breaks)
qed

lemma timestamp_rule_breaks:
  "subst_all (unix_timestamp_to_postgres lt) (re_scan timestamp_re None prev s) = Inr out \<Longrightarrow>
     breaks out = breaks s"
proof (induction "length s" arbitrary: s prev out rule: less_induct)
  case less
  show ?case
  proof (cases "epoch_hit prev s")
    case True
    let ?tw = "takeWhile is_digit s" and ?dw = "dropWhile is_digit s"
    have sp: "s = ?tw @ ?dw" by simp
    then have "length s = length ?tw + length ?dw" by (metis length_append)
    with epoch_hit_nonempty[OF True] have lt: "length ?dw < length s" by simp
    have sc: "re_scan timestamp_re None prev s =
            Inr [?tw] # re_scan timestamp_re None (Some (last ?tw)) ?dw"
      using True by (subst ts_scan_unfold) simp
    from less.prems obtain t u where
      t: "unix_timestamp_to_postgres lt [?tw] = Inr t"
      and u: "subst_all (unix_timestamp_to_postgres lt) (re_scan timestamp_re None (Some (last ?tw)) ?dw) = Inr u"
      and o: "out = t @ u"
      unfolding sc by (auto split: sum.splits)
    have d: "list_all is_digit ?tw" by (auto simp: list_all_iff dest: set_takeWhileD)
    have "breaks s = breaks ?tw + breaks ?dw" using sp by (metis breaks_append)
    with callback_breaks[OF t d] less.hyps[OF lt u] breaks_digits[OF d] o
    show ?thesis by (simp add: breaks_append)
  next
    case False
    show ?thesis
    proof (cases s)
      case Nil
      with less.prems show ?thesis by (simp add: ts_scan_Nil)
    next
      case (Cons x xs)
      have sc: "re_scan timestamp_re None prev s = Inl x # re_scan timestamp_re None (Some x) xs"
        using False Cons by (subst ts_scan_unfold) simp
      from less.prems obtain u where
        u: "subst_all (unix_timestamp_to_postgres lt) (re_scan timestamp_re None (Some x) xs) = Inr u"
        and o: "out = x # u"
        unfolding sc by (auto split: sum.splits)
      from less.hyps[of xs, OF _ u] Cons o show ?thesis by (simp add: breaks_Cons)
    qed
  qed
qed

lemma rewrite_inserts_breaks:
  assumes "rewrite_inserts lt ls = Inr body"
  shows "breaks body = breaks (join [nl] ls)"
proof -
  from assms obtain c where
    c: "re_sub_call timestamp_re (unix_timestamp_to_postgres lt) (quote_table_names (join [nl] ls)) = Inr c"
    and b: "body = re_sub doubled_quotes_re doubled_quotes_tpl
                     (re_sub values_null_re values_null_tpl (convert_booleans c))"
    unfolding rewrite_inserts_def Let_def by (auto split: sum.splits)
  from c have "breaks c = breaks (quote_table_names (join [nl] ls))"
    unfolding re_sub_call_def by (rule timestamp_rule_breaks)
  then show ?thesis
    unfolding b
    by (simp add: doubled_quotes_breaks values_null_breaks convert_booleans_breaks
        quote_table_names_breaks)
qed

lemma split_on_nonempty: "split_on c s \<noteq> []"
  by (induction s) (auto split: list.splits)

lemma length_split_on: "length (split_on c s) = length (filter (\<lambda>x. x = c) s) + 1"
proof (induction s)
  case Nil
  then show ?case by simp
next
  case (Cons x s)
  then show ?case using split_on_nonempty[of c s] by (cases "split_on c s") auto
qed

lemma split_on_no_sep: "l \<in> set (split_on c s) \<Longrightarrow> c \<notin> set l"
proof (induction s arbitrary: l)
  case Nil
  then show ?case by simp
next
  case (Cons x s)
  then show ?case using split_on_nonempty[of c s]
    by (cases "split_on c s") (auto split: if_splits)
qed

lemma breaks_join:
  assumes "\<forall>l\<in>set ls. nl \<notin> set l" and "ls \<noteq> []"
  shows "breaks (join [nl] ls) + 1 = length ls"
  using assms
proof (induction ls)
  case Nil
  then show ?case by simp
next
  case (Cons l ls)
  then have l: "breaks l = 0" by (auto simp: breaks_def filter_empty_conv)
  show ?case
  proof (cases ls)
    case Nil
    with l show ?thesis by simp
  next
    case c2: (Cons m ms)
    with Cons have "breaks (join [nl] ls) + 1 = length ls" by simp
    with l c2 show ?thesis by (simp add: breaks_append breaks_Cons)
  qed
qed

lemma insert_lines_of_filter:
  "insert_lines_of content =
     filter (\<lambda>l. startswith (lstrip l) ''INSERT INTO'') (split_on nl content)"
  by (simp add: insert_lines_of_def is_insert_line_lstrip[abs_def])

lemma convert_written:
  assumes "files w i = Some c" and "insert_lines_of c \<noteq> []"
    and "convert_sqlite_data_to_postgres e w i out = Inr w'"
  shows "\<exists>now body. rewrite_inserts (platform_localtime e) (insert_lines_of c) = Inr body \<and>
           fromtimestamp (platform_localtime e) (clock e) = Inr now \<and>
           files w' out = Some (data_preamble (strftime now) @ body @ data_postamble)"
  using assms
  by (auto simp: convert_sqlite_data_to_postgres_def read_file_def write_file_def print_def Let_def
      split: sum.splits if_splits)

lemma body_lines:
  assumes "rewrite_inserts lt (insert_lines_of c) = Inr body" and "insert_lines_of c \<noteq> []"
  shows "length (split_on nl body) = length (insert_lines_of c)"
proof -
  have "\<forall>l\<in>set (insert_lines_of c). nl \<notin> set l"
    by (auto simp: insert_lines_of_def dest: split_on_no_sep)
  from breaks_join[OF this assms(2)] rewrite_inserts_breaks[OF assms(1)]
  show ?thesis by (simp add: length_split_on breaks_def)
qed

section \<open>Patterns without word boundaries\<close>

lemma agree_refl: "agree a a"
  by (auto simp: agree_def split: option.splits)

lemma agree_None: "agree None None"
  by (simp add: agree_def)

lemma agree_Mark:
  "agree a b \<Longrightarrow>
   agree (case a of None \<Rightarrow> None | Some (ms, p, r) \<Rightarrow> Some (s # ms, p, r))
         (case b of None \<Rightarrow> None | Some (ms, p, r) \<Rightarrow> Some (s # ms, p, r))"
  by (auto simp: agree_def split: option.splits)

lemma rmatch_prev_free:
  "WordB \<notin> set p \<Longrightarrow> agree (rmatch p adv prev s) (rmatch p adv prev' s)"
proof (induction p adv prev s arbitrary: prev' rule: rmatch.induct)
  case (1 adv prev s)
  then show ?case by (simp add: agree_def)
next
  case (2 c "is" adv prev)
  then show ?case by (simp add: agree_None)
next
  case (3 c "is" adv prev x xs)
  then show ?case by (simp add: agree_None agree_refl)
next
  case (4 c "is" adv prev)
  then show ?case by (simp add: agree_None)
next
  case (5 c "is" adv prev x xs)
  then show ?case by (simp add: agree_None agree_refl)
next
  case (6 "is" adv prev s)
  then show ?case by simp
next
  case (7 "is" adv prev s)
  then have "agree (rmatch is adv prev s) (rmatch is adv prev' s)" by simp
  from agree_Mark[OF this] show ?case by simp
next
  case (8 cl lo hi "is" adv prev)
  then show ?case by (simp add: agree_None)
next
  case (9 cl lo hi "is" adv prev x xs)
  from 9(4) have f: "WordB \<notin> set is" by simp
  show ?case
  proof (cases "in_class cl x \<and> has_more hi")
    case True
    show ?thesis
    proof (cases "rmatch (Rep cl (lo - 1) (dec hi) # is) adv (Some x) xs")
      case None
      show ?thesis
      proof (cases "lo = 0")
        case l: True
        from 9(2)[OF True None l f, of prev'] True None l show ?thesis by simp
      next
        case False
        with True None show ?thesis by (simp add: agree_None)
      qed
    next
      case (Some m)
      with True show ?thesis by (simp add: agree_refl)
    qed
  next
    case False
    show ?thesis
    proof (cases "lo = 0")
      case l: True
      from 9(3)[OF False l f, of prev'] False l show ?thesis by auto
    next
      case nl: False
      with False show ?thesis by (auto simp: agree_None)
    qed
  qed
qed

lemma re_sub_from_prev_free:
  assumes c: "consuming p" and f: "WordB \<notin> set p"
  shows "re_sub_from p tpl prev s = re_sub_from p tpl prev' s"
proof (induction "length s" arbitrary: s prev prev' rule: less_induct)
  case less
  note e = rmatch_prev_free[OF f, of None prev s prev']
  show ?case
  proof (cases "rmatch p None prev s")
    case None
    with e have n': "rmatch p None prev' s = None" by (simp add: agree_def)
    from None n' show ?thesis
      by (subst (1 2) re_sub_from_unfold[OF c]) simp
  next
    case (Some m)
    obtain ms q r where m: "m = (ms, q, r)" by (cases m)
    with Some e obtain q' where s': "rmatch p None prev' s = Some (ms, q', r)"
      by (auto simp: agree_def)
    have "length r < length s" using rmatch_consuming[OF c] Some m by blast
    from less[OF this, of q q'] Some m s' show ?thesis
      by (subst (1 2) re_sub_from_unfold[OF c]) simp
  qed
qed

lemma re_sub_skip:
  assumes c: "consuming p" and f: "WordB \<notin> set p"
    and n: "\<And>x xs. x \<in> set pre \<Longrightarrow> rmatch p None None (x # xs) = None"
  shows "re_sub p tpl (pre @ t) = pre @ re_sub p tpl t"
  using n
proof (induction pre)
  case Nil
  then show ?case by simp
next
  case (Cons x pre)
  have "rmatch p None None (x # pre @ t) = None" using Cons.prems by simp
  then have "re_sub p tpl ((x # pre) @ t) = x # re_sub_from p tpl (Some x) (pre @ t)"
    unfolding re_sub_eq_from by (subst re_sub_from_unfold[OF c]) simp
  also have "\<dots> = x # re_sub p tpl (pre @ t)"
    unfolding re_sub_eq_from using re_sub_from_prev_free[OF c f] by simp
  finally show ?case using Cons by simp
qed

lemma re_sub_hit:
  assumes c: "consuming p" and f: "WordB \<notin> set p"
    and m: "rmatch p None None s = Some (ms, q, r)"
  shows "re_sub p tpl s = expand tpl (groups ms) @ re_sub p tpl r"
proof -
  have "re_sub p tpl s = expand tpl (groups ms) @ re_sub_from p tpl q r"
    unfolding re_sub_eq_from using m by (subst re_sub_from_unfold[OF c]) simp
  then show ?thesis
    unfolding re_sub_eq_from using re_sub_from_prev_free[OF c f] by simp
qed

section \<open>The backtick rule\<close>

lemma consuming_backtick: "consuming backtick_re"
  by (simp add: backtick_re_def)

lemma backtick_no_wordb: "WordB \<notin> set backtick_re"
  by (simp add: backtick_re_def)

lemma rmatch_backtick_miss: "x \<noteq> bt \<Longrightarrow> rmatch backtick_re None prev (x # xs) = None"
  by (simp add: backtick_re_def)

lemma rmatch_backtick_hit:
  assumes "ident \<noteq> []" and "bt \<notin> set ident"
  shows "rmatch backtick_re None prev (bt # ident @ bt # post) =
           Some ([ident @ bt # post, bt # post], Some bt, post)"
proof -
  let ?cl = "Neg [One bt]"
  have A: "\<And>prev x xs. in_class ?cl x \<Longrightarrow> rmatch [Mark, Chr bt] None prev (x # xs) = None"
    by simp
  have i: "\<And>x. x \<in> set ident \<Longrightarrow> in_class ?cl x" using assms(2) by auto
  have nb: "\<not> in_class ?cl bt" by simp
  have r: "run ?cl (ident @ bt # post) = ident"
    unfolding run_def using takeWhile_append2[of ident "in_class ?cl" "bt # post", OF i] nb
    by (simp del: in_class.simps)
  have a: "after_run ?cl (ident @ bt # post) = bt # post"
    unfolding after_run_def using dropWhile_append2[of ident "in_class ?cl" "bt # post", OF i] nb
    by (simp del: in_class.simps)
  have "rmatch (Rep ?cl 1 None # [Mark, Chr bt]) None (Some bt) (ident @ bt # post) =
          rmatch [Mark, Chr bt] None (prev_after (Some bt) ident) (bt # post)"
    using rmatch_rep_greedy[of ?cl "[Mark, Chr bt]" None 1 "Some bt" "ident @ bt # post", OF A] assms(1)
    by (simp only: r a) (cases ident, simp_all)
  then show ?thesis
    unfolding backtick_re_def by (simp del: rmatch.simps(8) rmatch.simps(9))
qed

lemma backtick_rule:
  assumes "ident \<noteq> []" and "bt \<notin> set ident" and "bt \<notin> set pre"
  shows "re_sub backtick_re backtick_tpl (pre @ [bt] @ ident @ [bt] @ post) =
           pre @ [dq] @ ident @ [dq] @ re_sub backtick_re backtick_tpl post"
proof -
  have "re_sub backtick_re backtick_tpl (pre @ (bt # ident @ bt # post)) =
          pre @ re_sub backtick_re backtick_tpl (bt # ident @ bt # post)"
  proof (rule re_sub_skip[OF consuming_backtick backtick_no_wordb])
    fix x xs
    assume "x \<in> set pre"
    with assms(3) have "x \<noteq> bt" by auto
    then show "rmatch backtick_re None None (x # xs) = None" by (rule rmatch_backtick_miss)
  qed
  moreover have "groups [ident @ bt # post, bt # post] = [ident]" by simp
  ultimately show ?thesis
    using re_sub_hit[OF consuming_backtick backtick_no_wordb
                     rmatch_backtick_hit[OF assms(1,2), of None post], of backtick_tpl]
    by (simp add: backtick_tpl_def del: groups.simps)
qed

section \<open>Phrases matched without regard to case\<close>

lemma is_word_lower: "is_word (lower c) = is_word c"
proof (cases "65 \<le> (of_char c :: nat) \<and> (of_char c :: nat) \<le> 90")
  case True
  then have "(of_char c + 32) mod 256 = (of_char c + 32 :: nat)" by simp
  with True show ?thesis by (simp add: lower_def is_word_def Let_def)
next
  case False
  then show ?thesis by (auto simp: lower_def Let_def)
qed

lemma same_nocase_length: "same_nocase a b \<Longrightarrow> length a = length b"
  unfolding same_nocase_def by (metis length_map)

lemma same_nocase_nth: "same_nocase a b \<Longrightarrow> k < length a \<Longrightarrow> lower (a ! k) = lower (b ! k)"
  unfolding same_nocase_def by (metis length_map nth_map)

lemma same_nocase_word:
  assumes "same_nocase a b" and "k < length a"
  shows "is_word (a ! k) = is_word (b ! k)"
  using same_nocase_nth[OF assms] is_word_lower[of "a ! k"] is_word_lower[of "b ! k"] by simp

lemma consuming_liti: "w \<noteq> [] \<Longrightarrow> consuming (liti w @ is)"
  by (cases w) (simp_all add: liti_def)

lemma consuming_wordi_re: "w \<noteq> [] \<Longrightarrow> consuming (wordi_re w)"
  by (simp add: wordi_re_def consuming_liti)

lemma rmatch_wordi:
  assumes W: "W \<noteq> []" "is_word (hd W)" "is_word (last W)"
  shows "rmatch (wordi_re W) None prev s =
     (if wordi_hit W prev s
      then Some ([], Some (last (take (length W) s)), drop (length W) s) else None)"
proof (cases "length W \<le> length s \<and> same_nocase (take (length W) s) W")
  case False
  then have "rmatch (liti W @ [WordB]) None prev s = None" by (simp add: rmatch_liti)
  with False show ?thesis by (auto simp: wordi_re_def wordi_hit_def)
next
  case True
  let ?m = "take (length W) s"
  have lm: "length ?m = length W" using True by simp
  have ne: "?m \<noteq> []" using lm W(1) by auto
  have sn: "same_nocase ?m W" using True by simp
  have "0 < length ?m" using ne by simp
  from same_nocase_word[OF sn this] have "is_word (?m ! 0) = is_word (W ! 0)" .
  then have h: "is_word (hd s)" using W(1,2) ne by (cases s; cases W) auto
  have "length W - 1 < length ?m" using lm W(1) by simp
  from same_nocase_word[OF sn this]
  have "is_word (?m ! (length W - 1)) = is_word (W ! (length W - 1))" .
  then have l: "is_word (last ?m)" using W(1,3) ne lm by (simp add: last_conv_nth)
  have s: "s \<noteq> []" using ne by auto
  then have nc: "word_opt (next_char s)" using h by (cases s) auto
  have pa: "prev_after prev ?m = Some (last ?m)" using ne by (simp add: prev_after_def)
  have "rmatch (wordi_re W) None prev s =
          (if \<not> word_opt prev then rmatch (liti W @ [WordB]) None prev s else None)"
    using nc by (simp add: wordi_re_def)
  also have "\<dots> = (if \<not> word_opt prev then rmatch [WordB] None (Some (last ?m)) (drop (length W) s) else None)"
    using True pa by (simp add: rmatch_liti)
  also have "\<dots> = (if wordi_hit W prev s
      then Some ([], Some (last ?m), drop (length W) s) else None)"
    using True l by (auto simp: wordi_hit_def)
  finally show ?thesis .
qed

lemma re_sub_from_wordi:
  assumes W: "W \<noteq> []" "is_word (hd W)" "is_word (last W)"
  shows "re_sub_from (wordi_re W) [TLit t] prev s =
     (if wordi_hit W prev s
      then t @ re_sub_from (wordi_re W) [TLit t] (Some (last (take (length W) s))) (drop (length W) s)
      else (case s of [] \<Rightarrow> [] | x # xs \<Rightarrow> x # re_sub_from (wordi_re W) [TLit t] (Some x) xs))"
  by (subst re_sub_from_unfold[OF consuming_wordi_re[OF W(1)]])
     (simp add: rmatch_wordi[OF W])

lemma wordi_hit_append:
  assumes W: "W \<noteq> []" "is_word (hd W)" "is_word (last W)" "no_straddle W"
    and u: "u \<noteq> []" "\<not> is_word (last u)"
    and t: "length W \<le> length t" "same_nocase (take (length W) t) W"
  shows "wordi_hit W prev (u @ t) = wordi_hit W prev u"
proof -
  consider "length W < length u" | "length u = length W" | "length u < length W" by linarith
  then show ?thesis
  proof cases
    case 1
    then have "drop (length W) u \<noteq> []" by simp
    then have "next_char (drop (length W) u @ t) = next_char (drop (length W) u)"
      by (cases "drop (length W) u") simp_all
    with 1 show ?thesis by (simp add: wordi_hit_def)
  next
    case 2
    have "\<not> same_nocase u W"
    proof
      assume a: "same_nocase u W"
      have "is_word (u ! (length u - 1)) = is_word (W ! (length u - 1))"
        using same_nocase_word[OF a] u(1) by simp
      with u W(1,3) 2 show False by (simp add: last_conv_nth)
    qed
    with 2 show ?thesis by (simp add: wordi_hit_def)
  next
    case 3
    let ?k = "length u"
    have k: "0 < ?k" "?k < length W" using u(1) 3 by auto
    have "\<not> same_nocase (take (length W) (u @ t)) W"
    proof
      assume a: "same_nocase (take (length W) (u @ t)) W"
      have len: "length (take (length W) (u @ t)) = length W" using t(1) by simp
      have "is_word (take (length W) (u @ t) ! (?k - 1)) = is_word (W ! (?k - 1))"
        using same_nocase_word[OF a] k len by simp
      moreover have "take (length W) (u @ t) ! (?k - 1) = last u"
        using k u(1) by (simp add: nth_append last_conv_nth)
      ultimately have 1: "\<not> is_word (W ! (?k - 1))" using u(2) by simp
      have "lower (take (length W) (u @ t) ! ?k) = lower (W ! ?k)"
        using same_nocase_nth[OF a] k len by simp
      moreover have "take (length W) (u @ t) ! ?k = t ! 0"
        using k by (simp add: nth_append)
      moreover have "lower (take (length W) t ! 0) = lower (W ! 0)"
        using same_nocase_nth[OF t(2)] t(1) W(1) by simp
      moreover have "take (length W) t ! 0 = t ! 0" using W(1) by simp
      ultimately have 2: "lower (W ! ?k) = lower (W ! 0)" by simp
      have "1 \<le> ?k" using k(1) by linarith
      then have "?k \<in> set [1..<length W]" using k(2) by simp
      with W(4) have "is_word (W ! (?k - 1)) \<or> lower (W ! ?k) \<noteq> lower (W ! 0)"
        unfolding no_straddle_def list_all_iff by blast
      with 1 2 show False by simp
    qed
    with 3 show ?thesis by (simp add: wordi_hit_def)
  qed
qed

lemma wordi_sub_append:
  assumes W: "W \<noteq> []" "is_word (hd W)" "is_word (last W)" "no_straddle W"
    and t: "length W \<le> length t" "same_nocase (take (length W) t) W"
    and p: "pre = [] \<or> \<not> is_word (last pre)"
  shows "re_sub_from (wordi_re W) [TLit x] prev (pre @ t) =
           re_sub_from (wordi_re W) [TLit x] prev pre @
           re_sub_from (wordi_re W) [TLit x] (prev_after prev pre) t"
  using p
proof (induction "length pre" arbitrary: pre prev rule: less_induct)
  case less
  note U = re_sub_from_wordi[OF W(1,2,3)]
  show ?case
  proof (cases "pre = []")
    case True
    have "\<not> wordi_hit W prev []" using W(1) by (simp add: wordi_hit_def)
    then have "re_sub_from (wordi_re W) [TLit x] prev [] = []" by (subst U) simp
    with True show ?thesis by (simp add: prev_after_def)
  next
    case False
    with less.prems have nw: "\<not> is_word (last pre)" by simp
    note H = wordi_hit_append[OF W False nw t, of prev]
    show ?thesis
    proof (cases "wordi_hit W prev pre")
      case True
      let ?m = "take (length W) pre" and ?d = "drop (length W) pre"
      have le: "length W \<le> length pre" using True by (simp add: wordi_hit_def)
      have "length pre \<noteq> length W"
      proof
        assume e: "length pre = length W"
        with True have a: "same_nocase pre W" by (simp add: wordi_hit_def)
        have "is_word (pre ! (length pre - 1)) = is_word (W ! (length pre - 1))"
          using same_nocase_word[OF a] False by simp
        with nw W(1,3) e False show False by (simp add: last_conv_nth)
      qed
      with le have lt: "length W < length pre" by simp
      then have dn: "?d \<noteq> []" by simp
      then have ld: "last ?d = last pre" by (metis append_take_drop_id last_appendR)
      have "0 < length W" using W(1) by simp
      with lt have "length pre - length W < length pre" by linarith
      then have sh: "length ?d < length pre" by simp
      have c: "?d = [] \<or> \<not> is_word (last ?d)" using ld nw by simp
      have tk: "take (length W) (pre @ t) = ?m" "drop (length W) (pre @ t) = ?d @ t"
        using le by simp_all
      have pa: "prev_after (Some (last ?m)) ?d = prev_after prev pre"
        using dn ld False by (simp add: prev_after_def)
      have hit': "wordi_hit W prev (pre @ t)" using True H by simp
      have "re_sub_from (wordi_re W) [TLit x] prev (pre @ t) =
              x @ re_sub_from (wordi_re W) [TLit x] (Some (last ?m)) (?d @ t)"
        by (subst U) (simp only: hit' if_True tk)
      also have "\<dots> = x @ re_sub_from (wordi_re W) [TLit x] (Some (last ?m)) ?d @
                          re_sub_from (wordi_re W) [TLit x] (prev_after prev pre) t"
        using less.hyps[OF sh c, of "Some (last ?m)"] pa by simp
      also have "\<dots> = re_sub_from (wordi_re W) [TLit x] prev pre @
                        re_sub_from (wordi_re W) [TLit x] (prev_after prev pre) t"
        using True by (subst (3) U) simp
      finally show ?thesis .
    next
      case nh: False
      from False obtain y ys where py: "pre = y # ys" by (cases pre) auto
      have c: "ys = [] \<or> \<not> is_word (last ys)" using nw py by auto
      have pa: "prev_after (Some y) ys = prev_after prev pre"
        using py by (simp add: prev_after_def)
      have "re_sub_from (wordi_re W) [TLit x] prev (pre @ t) =
              y # re_sub_from (wordi_re W) [TLit x] (Some y) (ys @ t)"
        using nh H py by (subst U) simp
      also have "\<dots> = y # re_sub_from (wordi_re W) [TLit x] (Some y) ys @
                          re_sub_from (wordi_re W) [TLit x] (prev_after prev pre) t"
        using less.hyps[of ys, OF _ c, of "Some y"] py pa by simp
      also have "\<dots> = re_sub_from (wordi_re W) [TLit x] prev pre @
                        re_sub_from (wordi_re W) [TLit x] (prev_after prev pre) t"
        using nh py by (subst (3) U) simp
      finally show ?thesis .
    qed
  qed
qed

lemma wordi_rule:
  assumes W: "W \<noteq> []" "is_word (hd W)" "is_word (last W)" "no_straddle W"
    and w: "same_nocase w W"
    and a: "a = [] \<or> \<not> is_word (last a)"
    and b: "b = [] \<or> \<not> is_word (hd b)"
  shows "re_sub (wordi_re W) [TLit x] (a @ w @ b) =
           re_sub (wordi_re W) [TLit x] a @ x @ re_sub (wordi_re W) [TLit x] b"
proof -
  note U = re_sub_from_wordi[OF W(1,2,3)]
  have lw: "length w = length W" using w by (rule same_nocase_length)
  have t: "length W \<le> length (w @ b)" "same_nocase (take (length W) (w @ b)) W"
    using lw w by simp_all
  have nb: "\<not> word_opt (next_char b)" using b by (cases b) auto
  have npa: "\<not> word_opt (prev_after None a)" using a by (auto simp: prev_after_def)
  have hit: "wordi_hit W (prev_after None a) (w @ b)"
    using npa t nb lw by (simp add: wordi_hit_def)
  have nohit: "\<And>p. \<not> wordi_hit W p b"
  proof
    fix p
    assume h: "wordi_hit W p b"
    then have l: "length W \<le> length b" and s: "same_nocase (take (length W) b) W"
      by (simp_all add: wordi_hit_def)
    have "is_word (take (length W) b ! 0) = is_word (W ! 0)"
      using same_nocase_word[OF s] l W(1) by simp
    then have "is_word (hd b)" using W(1,2) l by (cases b; cases W) auto
    moreover have "b \<noteq> []" using l W(1) by auto
    ultimately show False using b by simp
  qed
  have pb: "\<And>p. re_sub_from (wordi_re W) [TLit x] p b = re_sub_from (wordi_re W) [TLit x] None b"
    using nohit by (subst (1 2) U) simp
  have "re_sub_from (wordi_re W) [TLit x] (prev_after None a) (w @ b) =
          x @ re_sub_from (wordi_re W) [TLit x] (Some (last (take (length W) (w @ b)))) b"
    using hit lw by (subst U) simp
  then have "re_sub_from (wordi_re W) [TLit x] (prev_after None a) (w @ b) =
          x @ re_sub_from (wordi_re W) [TLit x] None b"
    using pb by simp
  with wordi_sub_append[OF W t a, of x None] show ?thesis
    by (simp add: re_sub_eq_from)
qed

lemma autoincrement_phrase:
  "''INTEGER PRIMARY KEY AUTOINCREMENT'' \<noteq> []"
  "is_word (hd ''INTEGER PRIMARY KEY AUTOINCREMENT'')"
  "is_word (last ''INTEGER PRIMARY KEY AUTOINCREMENT'')"
  "no_straddle ''INTEGER PRIMARY KEY AUTOINCREMENT''"
  by code_simp+

section \<open>Backticks and the autoincrement idiom in the pipeline\<close>

lemma schema_rewrite_parts:
  "schema_rewrite s =
     schema_after_backticks (re_sub backtick_re backtick_tpl (re_sub pragma_re [] s))"
  unfolding schema_rewrite_def schema_after_backticks_def schema_after_autoincrement_def
    schema_type_rules_def Let_def by (rule refl)

text \<open>
  Claim C6 as worded fails for the converter as a whole, because the rules that follow
  rewrite what the two rules emit: the identifier \<open>real\<close> between backticks comes out as
  \<open>"REAL"\<close>, a statement \<open>PRAGMA ...;\<close> is deleted with the backticks in it, and behind
  \<open>INSERT INTO\<close> the text \<open>SERIAL PRIMARY KEY\<close> is broken up by the quoting of table names.
\<close>

theorem backticks_and_autoincrement_rewritten_later:
  "schema_rewrite (''CREATE TABLE t ('' @ [bt] @ ''real'' @ [bt] @ '' REAL);'') =
     ''CREATE TABLE t ('' @ [dq] @ ''REAL'' @ [dq] @ '' REAL);'' \<and>
   schema_rewrite (''PRAGMA table_info('' @ [bt] @ ''users'' @ [bt] @ '');'') = [] \<and>
   schema_rewrite ''INSERT INTO INTEGER PRIMARY KEY AUTOINCREMENT'' =
     ''INSERT INTO '' @ [dq] @ ''SERIAL'' @ [dq] @ '' PRIMARY KEY''"
  by code_simp

text \<open>
  Claim C6, as the code has it.  In the text that the rule for \<open>PRAGMA\<close> statements leaves,
  the backticks around an identifier without backticks (the first pair of backticks, then
  the first pair of what follows, and so on) become double quotes, and this is the text that
  the rules behind the backtick rule work on.  In the text that the rules for type names
  leave, every occurrence of \<open>INTEGER PRIMARY KEY AUTOINCREMENT\<close> between word boundaries,
  in whatever case, becomes \<open>SERIAL PRIMARY KEY\<close>, the text before and the text behind are
  rewritten as they are on their own, and this is the text that the rules behind the
  autoincrement rule work on.
\<close>

theorem backticks_and_autoincrement_handed_on:
  "(re_sub pragma_re [] s = pre @ [bt] @ ident @ [bt] @ post \<and>
    ident \<noteq> [] \<and> bt \<notin> set ident \<and> bt \<notin> set pre \<longrightarrow>
    schema_rewrite s =
      schema_after_backticks (pre @ [dq] @ ident @ [dq] @ re_sub backtick_re backtick_tpl post)) \<and>
   (schema_type_rules (re_sub backtick_re backtick_tpl (re_sub pragma_re [] s)) = a @ w @ b \<and>
    same_nocase w ''INTEGER PRIMARY KEY AUTOINCREMENT'' \<and>
    (a = [] \<or> \<not> is_word (last a)) \<and> (b = [] \<or> \<not> is_word (hd b)) \<longrightarrow>
    schema_rewrite s =
      schema_after_autoincrement
        (re_sub autoincrement_re [TLit ''SERIAL PRIMARY KEY''] a @ ''SERIAL PRIMARY KEY'' @
         re_sub autoincrement_re [TLit ''SERIAL PRIMARY KEY''] b))"
proof (intro conjI impI)
  assume h: "re_sub pragma_re [] s = pre @ [bt] @ ident @ [bt] @ post \<and>
    ident \<noteq> [] \<and> bt \<notin> set ident \<and> bt \<notin> set pre"
  then have 1: "ident \<noteq> []" "bt \<notin> set ident" "bt \<notin> set pre" by simp_all
  from h have e: "re_sub pragma_re [] s = pre @ [bt] @ ident @ [bt] @ post" by (rule conjunct1)
  show "schema_rewrite s =
      schema_after_backticks (pre @ [dq] @ ident @ [dq] @ re_sub backtick_re backtick_tpl post)"
    by (simp only: schema_rewrite_parts e backtick_rule[OF 1])
next
  assume h: "schema_type_rules (re_sub backtick_re backtick_tpl (re_sub pragma_re [] s)) = a @ w @ b \<and>
    same_nocase w ''INTEGER PRIMARY KEY AUTOINCREMENT'' \<and>
    (a = [] \<or> \<not> is_word (last a)) \<and> (b = [] \<or> \<not> is_word (hd b))"
  then have 1: "same_nocase w ''INTEGER PRIMARY KEY AUTOINCREMENT''"
    "a = [] \<or> \<not> is_word (last a)" "b = [] \<or> \<not> is_word (hd b)" by simp_all
  from h have e: "schema_type_rules (re_sub backtick_re backtick_tpl (re_sub pragma_re [] s)) = a @ w @ b"
    by (rule conjunct1)
  have r: "re_sub autoincrement_re [TLit ''SERIAL PRIMARY KEY''] (a @ w @ b) =
        re_sub autoincrement_re [TLit ''SERIAL PRIMARY KEY''] a @ ''SERIAL PRIMARY KEY'' @
         re_sub autoincrement_re [TLit ''SERIAL PRIMARY KEY''] b"
    using wordi_rule[OF autoincrement_phrase 1] unfolding autoincrement_re_def .
  show "schema_rewrite s =
      schema_after_autoincrement
        (re_sub autoincrement_re [TLit ''SERIAL PRIMARY KEY''] a @ ''SERIAL PRIMARY KEY'' @
         re_sub autoincrement_re [TLit ''SERIAL PRIMARY KEY''] b)"
    by (simp only: schema_rewrite_parts schema_after_backticks_def e r)
qed

theorem backticks_and_autoincrement_handed_on_witness:
  "schema_rewrite (''CREATE TABLE '' @ [bt] @ ''users'' @ [bt] @ '' (id integer primary key autoincrement);'') =
     schema_after_backticks (''CREATE TABLE '' @ [dq] @ ''users'' @ [dq] @ '' (id integer primary key autoincrement);'') \<and>
   schema_rewrite (''CREATE TABLE '' @ [bt] @ ''users'' @ [bt] @ '' (id integer primary key autoincrement);'') =
     schema_after_autoincrement (''CREATE TABLE '' @ [dq] @ ''users'' @ [dq] @ '' (id SERIAL PRIMARY KEY);'') \<and>
   schema_rewrite (''CREATE TABLE '' @ [bt] @ ''users'' @ [bt] @ '' (id integer primary key autoincrement);'') =
     ''CREATE TABLE '' @ [dq] @ ''users'' @ [dq] @ '' (id SERIAL PRIMARY KEY);''"
proof -
  let ?s = "''CREATE TABLE '' @ [bt] @ ''users'' @ [bt] @ '' (id integer primary key autoincrement);''"
  let ?post = "'' (id integer primary key autoincrement);''"
  let ?a = "''CREATE TABLE '' @ [dq] @ ''users'' @ [dq] @ '' (id ''"
  let ?w = "''INTEGER primary key autoincrement''"
  let ?b = "'');''"
  note T = backticks_and_autoincrement_handed_on[of ?s "''CREATE TABLE ''" "''users''" ?post ?a ?w ?b]
  have p: "re_sub pragma_re [] ?s = ''CREATE TABLE '' @ [bt] @ ''users'' @ [bt] @ ?post" by code_simp
  have h1: "re_sub pragma_re [] ?s = ''CREATE TABLE '' @ [bt] @ ''users'' @ [bt] @ ?post \<and>
    ''users'' \<noteq> [] \<and> bt \<notin> set ''users'' \<and> bt \<notin> set ''CREATE TABLE ''"
    by (intro conjI p) simp_all
  have t: "schema_type_rules (re_sub backtick_re backtick_tpl (re_sub pragma_re [] ?s)) = ?a @ ?w @ ?b"
    by code_simp
  have n: "same_nocase ?w ''INTEGER PRIMARY KEY AUTOINCREMENT''" by code_simp
  have h2: "schema_type_rules (re_sub backtick_re backtick_tpl (re_sub pragma_re [] ?s)) = ?a @ ?w @ ?b \<and>
    same_nocase ?w ''INTEGER PRIMARY KEY AUTOINCREMENT'' \<and>
    (?a = [] \<or> \<not> is_word (last ?a)) \<and> (?b = [] \<or> \<not> is_word (hd ?b))"
    by (intro conjI t n) (simp_all add: is_word_def)
  have q: "re_sub backtick_re backtick_tpl ?post = ?post" by code_simp
  have ra: "re_sub autoincrement_re [TLit ''SERIAL PRIMARY KEY''] ?a = ?a" by code_simp
  have rb: "re_sub autoincrement_re [TLit ''SERIAL PRIMARY KEY''] ?b = ?b" by code_simp
  have 1: "schema_rewrite ?s =
     schema_after_backticks (''CREATE TABLE '' @ [dq] @ ''users'' @ [dq] @ ?post)"
    using mp[OF conjunct1[OF T] h1] by (simp only: q)
  have "schema_rewrite ?s = schema_after_autoincrement (?a @ ''SERIAL PRIMARY KEY'' @ ?b)"
    using mp[OF conjunct2[OF T] h2] by (simp only: ra rb)
  then have 2: "schema_rewrite ?s =
     schema_after_autoincrement (''CREATE TABLE '' @ [dq] @ ''users'' @ [dq] @ '' (id SERIAL PRIMARY KEY);'')"
    by simp
  have 3: "schema_rewrite ?s = ''CREATE TABLE '' @ [dq] @ ''users'' @ [dq] @ '' (id SERIAL PRIMARY KEY);''"
    by code_simp
  from 1 2 3 show ?thesis by (intro conjI)
qed

section \<open>A literal rule around a text that it cannot touch\<close>

lemma lit_sub_unfold:
  assumes "w \<noteq> []"
  shows "re_sub (lit w) [TLit x] s =
     (if prefix w s then x @ re_sub (lit w) [TLit x] (drop (length w) s)
      else (case s of [] \<Rightarrow> [] | y # ys \<Rightarrow> y # re_sub (lit w) [TLit x] ys))"
proof -
  have c: "consuming (lit w)" using assms by (rule consuming_lit_only)
  have f: "WordB \<notin> set (lit w)" by (auto simp: lit_def)
  note P = re_sub_from_prev_free[OF c f]
  show ?thesis
  proof (cases "prefix w s")
    case True
    then have "rmatch (lit w) None None s = Some ([], prev_after None w, drop (length w) s)"
      by (simp add: rmatch_lit_only)
    from re_sub_hit[OF c f this, of "[TLit x]"] True show ?thesis by simp
  next
    case False
    then have "rmatch (lit w) None None s = None" by (simp add: rmatch_lit_only)
    moreover have "\<And>q t. re_sub_from (lit w) [TLit x] q t = re_sub (lit w) [TLit x] t"
      by (subst re_sub_eq_from) (rule P)
    ultimately show ?thesis using False
      by (simp add: re_sub_eq_from[of _ _ s] re_sub_from_unfold[OF c] split: list.splits)
  qed
qed

lemma prefix_into:
  assumes "prefix w (a @ T @ b)" and "T \<noteq> []" and "hd T \<notin> set w"
  shows "prefix w a"
proof (rule ccontr)
  assume n: "\<not> prefix w a"
  from assms(1) have "prefix w a \<or> (\<exists>us. w = a @ us \<and> prefix us (T @ b))"
    by (simp add: prefix_append)
  with n obtain us where u: "w = a @ us" "prefix us (T @ b)" by blast
  from n u(1) have "us \<noteq> []" by auto
  with u(2) assms(2) have "hd us = hd T" by (cases us; cases T) auto
  with \<open>us \<noteq> []\<close> u(1) have "hd T \<in> set w" by (cases us) auto
  with assms(3) show False by simp
qed

lemma lit_sub_around:
  assumes w: "w \<noteq> []" and T: "T \<noteq> []" and h: "hd T \<notin> set w" and g: "hd w \<notin> set T"
  shows "re_sub (lit w) [TLit x] (a @ T @ b) =
           re_sub (lit w) [TLit x] a @ T @ re_sub (lit w) [TLit x] b"
proof (induction "length a" arbitrary: a rule: less_induct)
  case less
  note U = lit_sub_unfold[OF w, of x]
  show ?case
  proof (cases a)
    case Nil
    have "re_sub (lit w) [TLit x] (T @ b) = T @ re_sub (lit w) [TLit x] b"
    proof (rule re_sub_skip)
      show "consuming (lit w)" using w by (rule consuming_lit_only)
      show "WordB \<notin> set (lit w)" by (auto simp: lit_def)
      fix y ys
      assume "y \<in> set T"
      with g have "y \<noteq> hd w" by auto
      then have "\<not> prefix w (y # ys)" using w by (cases w) auto
      then show "rmatch (lit w) None None (y # ys) = None" by (simp add: rmatch_lit_only)
    qed
    moreover have "re_sub (lit w) [TLit x] [] = []" using w by (subst U) simp
    ultimately show ?thesis using Nil by simp
  next
    case (Cons y a2)
    show ?thesis
    proof (cases "prefix w (a @ T @ b)")
      case True
      from prefix_into[OF True T h] have p: "prefix w a" .
      then obtain a3 where a3: "a = w @ a3" by (auto simp: prefix_def)
      have l: "length a3 < length a" using a3 w by simp
      have 1: "re_sub (lit w) [TLit x] (a @ T @ b) = x @ re_sub (lit w) [TLit x] (a3 @ T @ b)"
        using True by (subst U) (simp add: a3)
      have 2: "re_sub (lit w) [TLit x] (a3 @ T @ b) =
                 re_sub (lit w) [TLit x] a3 @ T @ re_sub (lit w) [TLit x] b"
        using less[OF l] .
      have 3: "re_sub (lit w) [TLit x] a = x @ re_sub (lit w) [TLit x] a3"
        using p by (subst U) (simp add: a3)
      show ?thesis by (simp only: 1 2 3 append_assoc)
    next
      case False
      then have np: "\<not> prefix w a" by (auto simp: prefix_def)
      have 1: "re_sub (lit w) [TLit x] (a @ T @ b) = y # re_sub (lit w) [TLit x] (a2 @ T @ b)"
        using False by (subst U) (simp add: Cons)
      have 2: "re_sub (lit w) [TLit x] (a2 @ T @ b) =
                 re_sub (lit w) [TLit x] a2 @ T @ re_sub (lit w) [TLit x] b"
        using less[of a2] Cons by simp
      have 3: "re_sub (lit w) [TLit x] a = y # re_sub (lit w) [TLit x] a2"
        using np by (subst U) (simp add: Cons)
      show ?thesis by (simp only: 1 2 3 append_Cons)
    qed
  qed
qed

lemma convert_booleans_around:
  assumes "T \<noteq> []" and "hd T \<notin> set '',01()''" and "CHR '','' \<notin> set T" and "CHR ''('' \<notin> set T"
  shows "convert_booleans (a @ T @ b) = convert_booleans a @ T @ convert_booleans b"
proof -
  have 1: "\<And>x a b. re_sub (lit '',0,'') [TLit x] (a @ T @ b) =
      re_sub (lit '',0,'') [TLit x] a @ T @ re_sub (lit '',0,'') [TLit x] b"
    using assms by (intro lit_sub_around) auto
  have 2: "\<And>x a b. re_sub (lit '',1,'') [TLit x] (a @ T @ b) =
      re_sub (lit '',1,'') [TLit x] a @ T @ re_sub (lit '',1,'') [TLit x] b"
    using assms by (intro lit_sub_around) auto
  have 3: "\<And>x a b. re_sub (lit ''(0,'') [TLit x] (a @ T @ b) =
      re_sub (lit ''(0,'') [TLit x] a @ T @ re_sub (lit ''(0,'') [TLit x] b"
    using assms by (intro lit_sub_around) auto
  have 4: "\<And>x a b. re_sub (lit ''(1,'') [TLit x] (a @ T @ b) =
      re_sub (lit ''(1,'') [TLit x] a @ T @ re_sub (lit ''(1,'') [TLit x] b"
    using assms by (intro lit_sub_around) auto
  have 5: "\<And>x a b. re_sub (lit '',0)'') [TLit x] (a @ T @ b) =
      re_sub (lit '',0)'') [TLit x] a @ T @ re_sub (lit '',0)'') [TLit x] b"
    using assms by (intro lit_sub_around) auto
  have 6: "\<And>x a b. re_sub (lit '',1)'') [TLit x] (a @ T @ b) =
      re_sub (lit '',1)'') [TLit x] a @ T @ re_sub (lit '',1)'') [TLit x] b"
    using assms by (intro lit_sub_around) auto
  show ?thesis
    unfolding convert_booleans_def Let_def by (simp only: 1 2 3 4 5 6)
qed

lemma values_null_around:
  assumes "T \<noteq> []" and "hd T \<notin> set ''VALUES(NULL,''" and "CHR ''V'' \<notin> set T"
  shows "re_sub values_null_re values_null_tpl (a @ T @ b) =
           re_sub values_null_re values_null_tpl a @ T @ re_sub values_null_re values_null_tpl b"
  unfolding values_null_re_def values_null_tpl_def
  using assms by (intro lit_sub_around) auto

section \<open>Double quotes taken out\<close>

lemma dq_dropped_Nil: "dq_dropped out [] = (out = [])"
  by (cases out) auto

lemma dq_dropped_refl: "dq_dropped s s"
  by (induction s) auto

lemma dq_dropped_append:
  "dq_dropped a b \<Longrightarrow> dq_dropped c d \<Longrightarrow> dq_dropped (a @ c) (b @ d)"
proof (induction a b rule: dq_dropped.induct)
  case 1
  then show ?case by simp
next
  case (2 x xs)
  then show ?case by simp
next
  case (3 y ys)
  then show ?case by (cases c) auto
next
  case (4 x xs y ys)
  then show ?case by auto
qed

lemma dq_dropped_skip: "dq_dropped a b \<Longrightarrow> dq_dropped a (dq # b)"
  by (cases a) auto

lemma doubled_quotes_dropped:
  "dq_dropped (re_sub doubled_quotes_re doubled_quotes_tpl s) s"
proof -
  have c: "consuming doubled_quotes_re" by (simp add: doubled_quotes_re_def)
  have "dq_dropped (re_sub_from doubled_quotes_re doubled_quotes_tpl None s) s"
  proof (rule re_sub_from_rel[OF c])
    show "dq_dropped [] []" by simp
    show "\<And>a b c d. dq_dropped a b \<Longrightarrow> dq_dropped c d \<Longrightarrow> dq_dropped (a @ c) (b @ d)"
      by (rule dq_dropped_append)
    show "\<And>x. dq_dropped [x] [x]" by simp
    fix prev s ms q r
    assume "rmatch doubled_quotes_re None prev s = Some (ms, q, r)"
    from rmatch_doubled_quotes[OF this] obtain g where
      g: "groups ms = [g]" "between s r = [dq, dq] @ g @ [dq, dq]" by blast
    have 1: "dq_dropped [dq] [dq, dq]" by simp
    have "dq_dropped ([dq] @ g @ [dq]) ([dq, dq] @ g @ [dq, dq])"
      by (intro dq_dropped_append 1 dq_dropped_refl)
    moreover have "expand doubled_quotes_tpl (groups ms) = [dq] @ g @ [dq]"
      by (simp add: g(1) doubled_quotes_tpl_def)
    ultimately show "dq_dropped (expand doubled_quotes_tpl (groups ms)) (between s r)"
      by (simp only: g(2))
  qed
  then show ?thesis by (simp add: re_sub_eq_from)
qed





lemma split_on_Cons:
  "split_on c (x # xs) =
     (if x = c then [] # split_on c xs else (x # hd (split_on c xs)) # tl (split_on c xs))"
  using split_on_nonempty[of c xs] by (cases "split_on c xs") auto

lemma dq_dropped_split:
  "dq_dropped out s \<Longrightarrow> list_all2 dq_dropped (split_on nl out) (split_on nl s)"
proof (induction out s rule: dq_dropped.induct)
  case 1
  then show ?case by simp
next
  case (2 x xs)
  then show ?case by simp
next
  case (3 y ys)
  then have y: "y = dq" and d: "dq_dropped [] ys" by auto
  from 3 d have "list_all2 dq_dropped [[]] (split_on nl ys)" by simp
  then obtain l where l: "split_on nl ys = [l]" "dq_dropped [] l"
    by (auto simp: list_all2_Cons1)
  have "dq_dropped [] (dq # l)" using l(2) by simp
  then show ?case unfolding y by (simp add: split_on_Cons l del: split_on.simps(2))
next
  case (4 x xs y ys)
  from 4(3) consider "x = y" "dq_dropped xs ys" | "y = dq" "dq_dropped (x # xs) ys" by auto
  then show ?case
  proof cases
    case 1
    from 4(1)[OF 1(2)] have ih: "list_all2 dq_dropped (split_on nl xs) (split_on nl ys)" .
    obtain l1 ls1 where s1: "split_on nl xs = l1 # ls1"
      using split_on_nonempty[of nl xs] by (cases "split_on nl xs") auto
    obtain l2 ls2 where s2: "split_on nl ys = l2 # ls2"
      using split_on_nonempty[of nl ys] by (cases "split_on nl ys") auto
    from ih have a: "dq_dropped l1 l2" "list_all2 dq_dropped ls1 ls2" by (simp_all add: s1 s2)
    show ?thesis using a unfolding 1(1) by (simp add: split_on_Cons s1 s2 del: split_on.simps(2))
  next
    case 2
    from 4(2)[OF 2(2)] have ih: "list_all2 dq_dropped (split_on nl (x # xs)) (split_on nl ys)" .
    obtain l1 ls1 where s1: "split_on nl (x # xs) = l1 # ls1"
      using split_on_nonempty[of nl "x # xs"] by (cases "split_on nl (x # xs)") auto
    obtain l2 ls2 where s2: "split_on nl ys = l2 # ls2"
      using split_on_nonempty[of nl ys] by (cases "split_on nl ys") auto
    from ih have a: "dq_dropped l1 l2" "list_all2 dq_dropped ls1 ls2"
      unfolding s1 s2 by simp_all
    have "dq_dropped l1 (dq # l2)" using a(1) by (rule dq_dropped_skip)
    then have "list_all2 dq_dropped (l1 # ls1) ((dq # l2) # ls2)" using a(2) by simp
    moreover have "split_on nl (y # ys) = (dq # l2) # ls2"
      unfolding 2(1) by (simp add: split_on_Cons s2 del: split_on.simps(2))
    ultimately show ?thesis by (simp only: s1)
  qed
qed

section \<open>The rules of the data-only script work line by line\<close>

lemma rewrite_inserts_line:
  "rewrite_inserts lt ls =
     (case rewrite_line lt (join [nl] ls) of
        Inl e \<Rightarrow> Inl e
      | Inr c \<Rightarrow> Inr (re_sub doubled_quotes_re doubled_quotes_tpl c))"
  by (simp add: rewrite_inserts_def rewrite_line_def Let_def split: sum.splits)

lemma nl_not_name: "\<not> in_class table_name_class nl"
  by (simp add: table_name_class_def is_space_def)

lemma run_nl:
  "run table_name_class (u @ nl # b) = run table_name_class u"
  "after_run table_name_class (u @ nl # b) = after_run table_name_class u @ nl # b"
  using nl_not_name
  by (simp_all add: run_def after_run_def takeWhile_append dropWhile_append takeWhile_eq_all_conv[THEN iffD2]
      dropWhile_eq_Nil_conv[THEN iffD2])

lemma insert_hit_nl:
  "insert_hit (a @ nl # b) = insert_hit a"
  "insert_hit a \<Longrightarrow> drop 12 (a @ nl # b) = drop 12 a @ nl # b"
proof -
  have len: "length ''INSERT INTO '' = 12" by simp
  have p: "prefix ''INSERT INTO '' (a @ nl # b) = prefix ''INSERT INTO '' a"
  proof
    assume "prefix ''INSERT INTO '' (a @ nl # b)"
    then have "prefix ''INSERT INTO '' (a @ [nl] @ b)" by simp
    then show "prefix ''INSERT INTO '' a" by (rule prefix_into) simp_all
  next
    assume "prefix ''INSERT INTO '' a"
    then show "prefix ''INSERT INTO '' (a @ nl # b)" by (rule prefix_prefix)
  qed
  have d: "prefix ''INSERT INTO '' a \<Longrightarrow> drop 12 (a @ nl # b) = drop 12 a @ nl # b"
  proof -
    assume "prefix ''INSERT INTO '' a"
    then have "length ''INSERT INTO '' \<le> length a" by (rule prefix_length_le)
    then have "12 \<le> length a" by (simp only: len)
    then show ?thesis by simp
  qed
  show "insert_hit (a @ nl # b) = insert_hit a"
    unfolding insert_hit_def p using d by (auto simp: run_nl)
  show "insert_hit a \<Longrightarrow> drop 12 (a @ nl # b) = drop 12 a @ nl # b"
    using d by (simp add: insert_hit_def)
qed

lemma quote_table_names_nl:
  "quote_table_names (a @ nl # b) = quote_table_names a @ nl # quote_table_names b"
proof (induction "length a" arbitrary: a rule: less_induct)
  case less
  show ?case
  proof (cases "insert_hit a")
    case True
    let ?r = "after_run table_name_class (drop 12 a)"
    have h: "insert_hit (a @ nl # b)" using True by (simp only: insert_hit_nl(1))
    have l: "length ?r < length a" using True by (rule insert_hit_shorter)
    have 1: "quote_table_names (a @ nl # b) =
            ''INSERT INTO '' @ [dq] @ run table_name_class (drop 12 a) @ [dq] @
            quote_table_names (?r @ nl # b)"
      by (simp only: quote_table_names_hit[OF h] insert_hit_nl(2)[OF True] run_nl)
    have 2: "quote_table_names (?r @ nl # b) = quote_table_names ?r @ nl # quote_table_names b"
      using less[OF l] .
    show ?thesis by (simp only: 1 2 quote_table_names_hit[OF True] append_assoc)
  next
    case False
    show ?thesis
    proof (cases a)
      case Nil
      have "\<not> insert_hit (nl # b)" by (simp add: insert_hit_def)
      then show ?thesis unfolding Nil by (simp add: quote_table_names_miss quote_table_names_Nil)
    next
      case (Cons y a2)
      have n: "\<not> insert_hit (y # a2 @ nl # b)" using False insert_hit_nl(1)[of a b] Cons by simp
      have n2: "\<not> insert_hit (y # a2)" using False Cons by simp
      have "quote_table_names (y # a2 @ nl # b) = y # quote_table_names (a2 @ nl # b)"
        using n by (rule quote_table_names_miss)
      also have "quote_table_names (a2 @ nl # b) = quote_table_names a2 @ nl # quote_table_names b"
        using less[of a2] Cons by simp
      finally show ?thesis unfolding Cons by (simp add: quote_table_names_miss[OF n2])
    qed
  qed
qed

lemma epoch_hit_append_right:
  assumes "t = [] \<or> \<not> is_word (hd t)"
  shows "epoch_hit prev (u @ t) = epoch_hit prev u"
    and "takeWhile is_digit (u @ t) = takeWhile is_digit u"
    and "dropWhile is_digit (u @ t) = dropWhile is_digit u @ t"
proof -
  have tp: "takeWhile is_digit t = []" "dropWhile is_digit t = t"
    using assms by (cases t; auto simp: is_word_digit)+
  show tw: "takeWhile is_digit (u @ t) = takeWhile is_digit u"
    by (simp add: takeWhile_append tp takeWhile_eq_all_conv[THEN iffD2])
  show dw: "dropWhile is_digit (u @ t) = dropWhile is_digit u @ t"
    by (simp add: dropWhile_append tp dropWhile_eq_Nil_conv[THEN iffD2])
  have "word_opt (next_char (dropWhile is_digit u @ t)) = word_opt (next_char (dropWhile is_digit u))"
  proof (cases "dropWhile is_digit u")
    case Nil
    have "\<not> word_opt (next_char t)" using assms by (cases t) auto
    then show ?thesis by (simp only: Nil append_Nil next_char.simps word_opt.simps)
  next
    case (Cons y ys)
    show ?thesis by (simp only: Cons append_Cons next_char.simps)
  qed
  then show "epoch_hit prev (u @ t) = epoch_hit prev u"
    by (simp add: epoch_hit_def tw dw)
qed

lemma ts_scan_append_right:
  assumes "t = [] \<or> \<not> is_word (hd t)"
  shows "re_scan timestamp_re None prev (u @ t) =
           re_scan timestamp_re None prev u @ re_scan timestamp_re None (prev_after prev u) t"
proof (induction "length u" arbitrary: u prev rule: less_induct)
  case less
  note A = epoch_hit_append_right[OF assms]
  show ?case
  proof (cases "u = []")
    case True
    then show ?thesis by (simp add: ts_scan_Nil prev_after_def)
  next
    case False
    show ?thesis
    proof (cases "epoch_hit prev u")
      case True
      let ?tw = "takeWhile is_digit u" and ?dw = "dropWhile is_digit u"
      have u: "u = ?tw @ ?dw" by simp
      have tne: "?tw \<noteq> []" using True by (rule epoch_hit_nonempty)
      have "length u = length ?tw + length ?dw"
        by (metis takeWhile_dropWhile_id length_append)
      with tne have lt: "length ?dw < length u" by simp
      have "last u = (if ?dw = [] then last ?tw else last ?dw)"
        using tne by (subst u) (simp only: last_append)
      then have pa: "prev_after (Some (last ?tw)) ?dw = prev_after prev u"
        using False by (simp add: prev_after_def)
      have 1: "re_scan timestamp_re None prev (u @ t) =
              Inr [?tw] # re_scan timestamp_re None (Some (last ?tw)) (?dw @ t)"
        using True by (subst ts_scan_unfold) (simp only: A if_True)
      have 2: "re_scan timestamp_re None (Some (last ?tw)) (?dw @ t) =
              re_scan timestamp_re None (Some (last ?tw)) ?dw @
              re_scan timestamp_re None (prev_after prev u) t"
        using less[OF lt, of "Some (last ?tw)"] by (simp only: pa)
      have 3: "re_scan timestamp_re None prev u =
              Inr [?tw] # re_scan timestamp_re None (Some (last ?tw)) ?dw"
        using True by (subst ts_scan_unfold) (simp only: if_True)
      show ?thesis by (simp only: 1 2 3 append_Cons)
    next
      case nh: False
      from False obtain x xs where p: "u = x # xs" by (cases u) auto
      have pa: "prev_after (Some x) xs = prev_after prev u"
        using p by (simp add: prev_after_def)
      have nh': "\<not> epoch_hit prev (u @ t)" using nh A(1)[of prev u] by blast
      have "re_scan timestamp_re None prev (u @ t) =
              (case u @ t of [] \<Rightarrow> []
               | x # xs \<Rightarrow> Inl x # re_scan timestamp_re None (Some x) xs)"
        using nh' by (subst ts_scan_unfold) (simp only: if_False)
      then have 1: "re_scan timestamp_re None prev (u @ t) =
              Inl x # re_scan timestamp_re None (Some x) (xs @ t)"
        unfolding p by simp
      have 2: "re_scan timestamp_re None (Some x) (xs @ t) =
              re_scan timestamp_re None (Some x) xs @ re_scan timestamp_re None (prev_after prev u) t"
        using less[of xs "Some x"] p by (simp only: pa) simp
      have 3: "re_scan timestamp_re None prev u = Inl x # re_scan timestamp_re None (Some x) xs"
        using nh p by (subst ts_scan_unfold) simp
      show ?thesis by (simp only: 1 2 3 append_Cons)
    qed
  qed
qed

lemma ts_scan_nl:
  "re_scan timestamp_re None None (a @ nl # b) =
     re_scan timestamp_re None None a @ Inl nl # re_scan timestamp_re None None b"
proof -
  have w: "\<not> is_word nl" by (simp add: is_word_def)
  have t: "nl # b = [] \<or> \<not> is_word (hd (nl # b))" using w by simp
  have "\<And>p. \<not> epoch_hit p (nl # b)"
    by (simp add: epoch_hit_def epoch_literal_def is_digit_def)
  then have 1: "\<And>p. re_scan timestamp_re None p (nl # b) =
             Inl nl # re_scan timestamp_re None (Some nl) b"
    by (subst ts_scan_unfold) simp
  have 2: "re_scan timestamp_re None (Some nl) b = re_scan timestamp_re None None b"
  proof (cases "epoch_hit None b")
    case True
    then have "epoch_hit (Some nl) b" using w by (simp add: epoch_hit_def)
    with True show ?thesis by (subst (1 2) ts_scan_unfold) simp
  next
    case False
    then have "\<not> epoch_hit (Some nl) b" using w by (simp add: epoch_hit_def)
    with False show ?thesis by (subst (1 2) ts_scan_unfold) simp
  qed
  show ?thesis by (simp only: ts_scan_append_right[OF t] 1 2)
qed

lemma ts_rule_nl:
  "re_sub_call timestamp_re f (a @ nl # b) =
     (case re_sub_call timestamp_re f a of
        Inl e \<Rightarrow> Inl e
      | Inr u \<Rightarrow> (case re_sub_call timestamp_re f b of Inl e \<Rightarrow> Inl e | Inr v \<Rightarrow> Inr (u @ nl # v)))"
  unfolding re_sub_call_def ts_scan_nl
  by (simp add: subst_all_append split: sum.splits)

lemma rewrite_line_nl:
  "rewrite_line lt (a @ nl # b) =
     (case rewrite_line lt a of
        Inl e \<Rightarrow> Inl e
      | Inr u \<Rightarrow> (case rewrite_line lt b of Inl e \<Rightarrow> Inl e | Inr v \<Rightarrow> Inr (u @ nl # v)))"
proof -
  have b: "\<And>u v. convert_booleans (u @ nl # v) = convert_booleans u @ nl # convert_booleans v"
    using convert_booleans_around[of "[nl]"] by simp
  have v: "\<And>u v. re_sub values_null_re values_null_tpl (u @ nl # v) =
      re_sub values_null_re values_null_tpl u @ nl # re_sub values_null_re values_null_tpl v"
    using values_null_around[of "[nl]"] by simp
  show ?thesis
    unfolding rewrite_line_def quote_table_names_nl ts_rule_nl
    by (simp add: b v split: sum.splits)
qed

lemma join_Cons: "ls \<noteq> [] \<Longrightarrow> join [nl] (l # ls) = l @ nl # join [nl] ls"
  by (cases ls) simp_all

lemma rewrite_line_join:
  "ls \<noteq> [] \<Longrightarrow> rewrite_line lt (join [nl] ls) = Inr x \<Longrightarrow>
     \<exists>rs. list_all2 (\<lambda>l r. rewrite_line lt l = Inr r) ls rs \<and> x = join [nl] rs"
proof (induction ls arbitrary: x)
  case Nil
  then show ?case by simp
next
  case (Cons l ls)
  show ?case
  proof (cases "ls = []")
    case True
    with Cons.prems(2) have "rewrite_line lt l = Inr x" by simp
    then have "list_all2 (\<lambda>l r. rewrite_line lt l = Inr r) (l # ls) [x] \<and> x = join [nl] [x]"
      using True by simp
    then show ?thesis by blast
  next
    case False
    from Cons.prems(2) have e: "rewrite_line lt (l @ nl # join [nl] ls) = Inr x"
      by (simp only: join_Cons[OF False])
    then obtain u v where uv: "rewrite_line lt l = Inr u" "rewrite_line lt (join [nl] ls) = Inr v"
      "x = u @ nl # v"
      unfolding rewrite_line_nl by (auto split: sum.splits)
    from Cons.IH[OF False uv(2)] obtain rs where
      rs: "list_all2 (\<lambda>l r. rewrite_line lt l = Inr r) ls rs" "v = join [nl] rs" by blast
    from rs(1) False have "rs \<noteq> []" by auto
    then have "join [nl] (u # rs) = u @ nl # join [nl] rs" by (rule join_Cons)
    with uv(1,3) rs have
      "list_all2 (\<lambda>l r. rewrite_line lt l = Inr r) (l # ls) (u # rs) \<and> x = join [nl] (u # rs)"
      by simp
    then show ?thesis by blast
  qed
qed

lemma rewrite_line_breaks:
  assumes "rewrite_line lt l = Inr r"
  shows "breaks r = breaks l"
proof -
  from assms obtain c where
    c: "re_sub_call timestamp_re (unix_timestamp_to_postgres lt) (quote_table_names l) = Inr c"
    and r: "r = re_sub values_null_re values_null_tpl (convert_booleans c)"
    unfolding rewrite_line_def by (auto split: sum.splits)
  from c have "breaks c = breaks (quote_table_names l)"
    unfolding re_sub_call_def by (rule timestamp_rule_breaks)
  then show ?thesis
    by (simp add: r values_null_breaks convert_booleans_breaks quote_table_names_breaks)
qed

lemma split_on_plain: "c \<notin> set l \<Longrightarrow> split_on c l = [l]"
  by (induction l) auto

lemma split_on_first: "c \<notin> set l \<Longrightarrow> split_on c (l @ c # r) = l # split_on c r"
  by (induction l) auto

lemma split_on_join:
  "ls \<noteq> [] \<Longrightarrow> \<forall>l\<in>set ls. nl \<notin> set l \<Longrightarrow> split_on nl (join [nl] ls) = ls"
proof (induction ls)
  case Nil
  then show ?case by simp
next
  case (Cons l ls)
  show ?case
  proof (cases "ls = []")
    case True
    with Cons.prems show ?thesis by (simp add: split_on_plain)
  next
    case False
    with Cons show ?thesis by (simp only: join_Cons[OF False]) (simp add: split_on_first)
  qed
qed

lemma breaks_none: "breaks s = 0 \<longleftrightarrow> nl \<notin> set s"
  by (induction s) (auto simp: breaks_def)

lemma rewritten_lines:
  assumes run: "rewrite_inserts lt ls = Inr body" and ne: "ls \<noteq> []"
    and nn: "\<forall>l\<in>set ls. nl \<notin> set l"
  shows "\<exists>rs. list_all2 (\<lambda>l r. rewrite_line lt l = Inr r) ls rs \<and>
              list_all2 dq_dropped (split_on nl body) rs"
proof -
  from run obtain x where x: "rewrite_line lt (join [nl] ls) = Inr x"
    and b: "body = re_sub doubled_quotes_re doubled_quotes_tpl x"
    unfolding rewrite_inserts_line by (auto split: sum.splits)
  from rewrite_line_join[OF ne x] obtain rs where
    rs: "list_all2 (\<lambda>l r. rewrite_line lt l = Inr r) ls rs" "x = join [nl] rs" by blast
  have "\<forall>r\<in>set rs. nl \<notin> set r"
  proof
    fix r
    assume "r \<in> set rs"
    then obtain k where k: "k < length rs" "r = rs ! k" by (auto simp: in_set_conv_nth)
    with rs(1) have "rewrite_line lt (ls ! k) = Inr r" and kl: "k < length ls"
      by (auto simp: list_all2_conv_all_nth)
    then have "breaks r = breaks (ls ! k)" by (intro rewrite_line_breaks)
    moreover have "nl \<notin> set (ls ! k)" using nn kl by simp
    ultimately show "nl \<notin> set r" by (simp add: breaks_none[symmetric])
  qed
  moreover have "rs \<noteq> []" using rs(1) ne by auto
  ultimately have "split_on nl x = rs" unfolding rs(2) by (intro split_on_join)
  moreover have "list_all2 dq_dropped (split_on nl body) (split_on nl x)"
    unfolding b by (intro dq_dropped_split doubled_quotes_dropped)
  ultimately show ?thesis using rs(1) by auto
qed

section \<open>The lines of the data-only output, one by one\<close>

text \<open>
  Claim C1.  When some line of the input, trimmed of leading whitespace, begins with
  \<open>INSERT INTO\<close>, the text that a successful run writes is the preamble, a body and the
  postamble.  The body is the rewriting of the lines that begin so, joined in the order of
  the input, and of no other line.  It has as many lines as there are such lines, and its
  line number \<open>k\<close> is the line number \<open>k\<close> among them, rewritten on its own by the rules up to
  the last, less the double quotes that the last rule takes out (that rule turns
  \<open>""name""\<close> into \<open>"name"\<close>, and a name may begin on one line and end on a later one).
\<close>

theorem insert_lines_kept:
  assumes "files w i = Some content"
    and "\<exists>line\<in>set (split_on nl content). startswith (lstrip line) ''INSERT INTO''"
    and "convert_sqlite_data_to_postgres e w i out = Inr w'"
  shows "\<exists>generated body.
           files w' out = Some (data_preamble generated @ body @ data_postamble) \<and>
           rewrite_inserts (platform_localtime e)
             (filter (\<lambda>l. startswith (lstrip l) ''INSERT INTO'') (split_on nl content)) = Inr body \<and>
           length (split_on nl body) =
             length (filter (\<lambda>l. startswith (lstrip l) ''INSERT INTO'') (split_on nl content)) \<and>
           (\<forall>k < length (filter (\<lambda>l. startswith (lstrip l) ''INSERT INTO'') (split_on nl content)).
              \<exists>r. rewrite_line (platform_localtime e)
                     (filter (\<lambda>l. startswith (lstrip l) ''INSERT INTO'') (split_on nl content) ! k) = Inr r \<and>
                   dq_dropped (split_on nl body ! k) r)"
proof -
  let ?ms = "insert_lines_of content"
  have ne: "?ms \<noteq> []"
    using assms(2) by (auto simp: insert_lines_of_filter filter_empty_conv)
  have nn: "\<forall>l\<in>set ?ms. nl \<notin> set l"
    by (auto simp: insert_lines_of_def dest: split_on_no_sep)
  from convert_written[OF assms(1) ne assms(3)] obtain now body where
    b: "rewrite_inserts (platform_localtime e) ?ms = Inr body"
       "files w' out = Some (data_preamble (strftime now) @ body @ data_postamble)"
    by blast
  from rewritten_lines[OF b(1) ne nn] obtain rs where
    rs: "list_all2 (\<lambda>l r. rewrite_line (platform_localtime e) l = Inr r) ?ms rs"
        "list_all2 dq_dropped (split_on nl body) rs" by blast
  have len: "length (split_on nl body) = length ?ms" using body_lines[OF b(1) ne] .
  have "\<forall>k < length ?ms. \<exists>r. rewrite_line (platform_localtime e) (?ms ! k) = Inr r \<and>
                   dq_dropped (split_on nl body ! k) r"
  proof (intro allI impI)
    fix k
    assume k: "k < length ?ms"
    from rs(1) k have 1: "rewrite_line (platform_localtime e) (?ms ! k) = Inr (rs ! k)"
      by (simp add: list_all2_conv_all_nth)
    from rs(2) k len have 2: "dq_dropped (split_on nl body ! k) (rs ! k)"
      by (simp add: list_all2_conv_all_nth)
    from 1 2 show "\<exists>r. rewrite_line (platform_localtime e) (?ms ! k) = Inr r \<and>
                   dq_dropped (split_on nl body ! k) r" by blast
  qed
  with b len show ?thesis
    unfolding insert_lines_of_filter by blast
qed

theorem insert_lines_kept_witness:
  "\<exists>w' generated body.
     convert_sqlite_data_to_postgres \<lparr>platform_localtime = Inr, clock = 0\<rparr>
       (world_with ''dump.sql''
          (''CREATE TABLE t (a integer);'' @ [nl] @ ''INSERT INTO t VALUES(7,1);'' @ [nl] @
           ''-- note'' @ [nl] @ ''  INSERT INTO u VALUES(8);''))
       ''dump.sql'' ''out.sql'' = Inr w' \<and>
     files w' ''out.sql'' = Some (data_preamble generated @ body @ data_postamble) \<and>
     length (split_on nl body) = 2 \<and>
     dq_dropped (split_on nl body ! 0) (''INSERT INTO '' @ [dq] @ ''t'' @ [dq] @ '' VALUES(7,TRUE);'') \<and>
     dq_dropped (split_on nl body ! 1) (''  INSERT INTO '' @ [dq] @ ''u'' @ [dq] @ '' VALUES(8);'')"
proof -
  let ?c = "''CREATE TABLE t (a integer);'' @ [nl] @ ''INSERT INTO t VALUES(7,1);'' @ [nl] @
            ''-- note'' @ [nl] @ ''  INSERT INTO u VALUES(8);''"
  let ?w = "world_with ''dump.sql'' ?c"
  let ?e = "\<lparr>platform_localtime = Inr, clock = 0\<rparr>"
  let ?P = "\<lambda>l. startswith (lstrip l) ''INSERT INTO''"
  let ?l0 = "''INSERT INTO t VALUES(7,1);''"
  let ?l1 = "''  INSERT INTO u VALUES(8);''"
  have f: "files ?w ''dump.sql'' = Some ?c" by (simp add: world_with_def)
  have m: "filter ?P (split_on nl ?c) = [?l0, ?l1]" by code_simp
  have x: "\<exists>line\<in>set (split_on nl ?c). ?P line"
  proof (rule ccontr)
    assume "\<not> (\<exists>line\<in>set (split_on nl ?c). ?P line)"
    then have "filter ?P (split_on nl ?c) = []" by (simp add: filter_empty_conv)
    with m show False by simp
  qed
  have "case convert_sqlite_data_to_postgres ?e ?w ''dump.sql'' ''out.sql'' of
          Inl x \<Rightarrow> False | Inr w' \<Rightarrow> True"
    by code_simp
  then obtain w' where c: "convert_sqlite_data_to_postgres ?e ?w ''dump.sql'' ''out.sql'' = Inr w'"
    by (cases "convert_sqlite_data_to_postgres ?e ?w ''dump.sql'' ''out.sql''") auto
  have pl: "platform_localtime ?e = Inr" by simp
  from insert_lines_kept[OF f x c] obtain generated body where
    A: "files w' ''out.sql'' = Some (data_preamble generated @ body @ data_postamble)"
    and C: "length (split_on nl body) = length (filter ?P (split_on nl ?c))"
    and D: "\<forall>k < length (filter ?P (split_on nl ?c)).
              \<exists>r. rewrite_line (platform_localtime ?e) (filter ?P (split_on nl ?c) ! k) = Inr r \<and>
                   dq_dropped (split_on nl body ! k) r"
    by blast
  have C': "length (split_on nl body) = 2" using C by (simp only: m) simp
  have r0: "rewrite_line Inr ?l0 = Inr (''INSERT INTO '' @ [dq] @ ''t'' @ [dq] @ '' VALUES(7,TRUE);'')"
    by code_simp
  have r1: "rewrite_line Inr ?l1 = Inr (''  INSERT INTO '' @ [dq] @ ''u'' @ [dq] @ '' VALUES(8);'')"
    by code_simp
  have k0: "0 < length [?l0, ?l1]" and k1: "1 < length [?l0, ?l1]" by simp_all
  have n0: "[?l0, ?l1] ! 0 = ?l0" and n1: "[?l0, ?l1] ! 1 = ?l1" by simp_all
  from D[unfolded m pl, rule_format, OF k0] obtain r where
    "rewrite_line Inr ([?l0, ?l1] ! 0) = Inr r" "dq_dropped (split_on nl body ! 0) r" by blast
  then have D0: "dq_dropped (split_on nl body ! 0)
      (''INSERT INTO '' @ [dq] @ ''t'' @ [dq] @ '' VALUES(7,TRUE);'')"
    unfolding n0 r0 by simp
  from D[unfolded m pl, rule_format, OF k1] obtain r where
    "rewrite_line Inr ([?l0, ?l1] ! 1) = Inr r" "dq_dropped (split_on nl body ! 1) r" by blast
  then have D1: "dq_dropped (split_on nl body ! 1)
      (''  INSERT INTO '' @ [dq] @ ''u'' @ [dq] @ '' VALUES(8);'')"
    unfolding n1 r1 by simp
  from c A C' D0 D1 show ?thesis by blast
qed

section \<open>The quoting of table names around a run of digits\<close>







section \<open>A timestamp in the body\<close>









end
